theory Spec2Isabelle
  imports Main "HOL-Library.Sublist"
begin

unbundle bit_operations_syntax

section \<open>Go strings and the library functions the checker calls\<close>

text \<open>
  A Go \<^verbatim>\<open>string\<close> is a sequence of bytes, modelled as \<^typ>\<open>string\<close> (a list of
  \<^typ>\<open>char\<close>, each one byte). Slicing \<^verbatim>\<open>s[a:b]\<close> is \<open>take\<close>/\<open>drop\<close> wherever the
  source has established that the bounds are in range; the two slices that can be out of range
  (in \<^verbatim>\<open>getFilePathAsNameSpace\<close> and \<^verbatim>\<open>ruleCheckBadClassName\<close>) are modelled with an
  explicit run-time panic.
\<close>

datatype error =
    Fatal string   \<comment> \<open>\<^verbatim>\<open>fatal(s)\<close>: prints \<open>s\<close> and calls \<^verbatim>\<open>os.Exit(1)\<close>\<close>
  | Panic          \<comment> \<open>run-time panic: slice bounds out of range\<close>

abbreviation TAB :: char where "TAB \<equiv> CHR 0x09"
abbreviation LF :: char where "LF \<equiv> CHR 0x0A"
abbreviation CR :: char where "CR \<equiv> CHR 0x0D"
abbreviation SPC :: char where "SPC \<equiv> CHR 0x20"
abbreviation NUL :: char where "NUL \<equiv> CHR 0x00"
abbreviation DQUOTE :: char where "DQUOTE \<equiv> CHR 0x22"

definition strings_HasPrefix :: "string \<Rightarrow> string \<Rightarrow> bool" where
  "strings_HasPrefix s p \<longleftrightarrow> length p \<le> length s \<and> take (length p) s = p"

definition strings_HasSuffix :: "string \<Rightarrow> string \<Rightarrow> bool" where
  "strings_HasSuffix s x \<longleftrightarrow> length x \<le> length s \<and> drop (length s - length x) s = x"

text \<open>\<^verbatim>\<open>strings.Index\<close>: the byte index of the first occurrence, or \<open>-1\<close>.\<close>

fun strings_Index :: "string \<Rightarrow> string \<Rightarrow> int" where
  "strings_Index [] sub = (if sub = [] then 0 else - 1)"
| "strings_Index (c # cs) sub =
     (if strings_HasPrefix (c # cs) sub then 0
      else (let i = strings_Index cs sub in if i < 0 then - 1 else i + 1))"

definition strings_Contains :: "string \<Rightarrow> string \<Rightarrow> bool" where
  "strings_Contains s sub \<longleftrightarrow> 0 \<le> strings_Index s sub"

text \<open>
  \<^verbatim>\<open>strings.IndexRune\<close> and \<^verbatim>\<open>strings.ContainsRune\<close> are only called with ASCII
  constants; for a rune below \<open>0x80\<close> the library searches for that byte.
\<close>

fun strings_IndexByte :: "string \<Rightarrow> char \<Rightarrow> int" where
  "strings_IndexByte [] b = - 1"
| "strings_IndexByte (c # cs) b =
     (if c = b then 0
      else (let i = strings_IndexByte cs b in if i < 0 then - 1 else i + 1))"

definition strings_ContainsRune :: "string \<Rightarrow> char \<Rightarrow> bool" where
  "strings_ContainsRune s b \<longleftrightarrow> 0 \<le> strings_IndexByte s b"

text \<open>\<^verbatim>\<open>strings.LastIndex\<close>: the byte index of the last occurrence, or \<open>-1\<close>.\<close>

fun strings_LastIndex :: "string \<Rightarrow> string \<Rightarrow> int" where
  "strings_LastIndex [] sub = (if sub = [] then 0 else - 1)"
| "strings_LastIndex (c # cs) sub =
     (let i = strings_LastIndex cs sub in
      if 0 \<le> i then i + 1
      else if strings_HasPrefix (c # cs) sub then 0
      else - 1)"

text \<open>
  \<^verbatim>\<open>strings.Replace(s, old, new, -1)\<close> for a non-empty \<open>old\<close> (every call site passes a
  literal): occurrences are found left to right and do not overlap.
\<close>

fun strings_Replace :: "string \<Rightarrow> string \<Rightarrow> string \<Rightarrow> string" where
  "strings_Replace [] old new = []"
| "strings_Replace (c # cs) old new =
     (if old \<noteq> [] \<and> strings_HasPrefix (c # cs) old
      then new @ strings_Replace (drop (length old - 1) cs) old new
      else c # strings_Replace cs old new)"

text \<open>\<^verbatim>\<open>strings.Trim(s, cutset)\<close> for an ASCII cutset: bytes of the cutset are removed at both ends.\<close>

definition strings_Trim :: "string \<Rightarrow> string \<Rightarrow> string" where
  "strings_Trim s cutset =
     rev (dropWhile (\<lambda>c. c \<in> set cutset) (rev (dropWhile (\<lambda>c. c \<in> set cutset) s)))"

text \<open>\<^verbatim>\<open>strings.Split(s, sep)\<close> for a non-empty separator.\<close>

function strings_Split :: "string \<Rightarrow> string \<Rightarrow> string list" where
  "strings_Split s sep =
     (let m = strings_Index s sep in
      if sep = [] \<or> m < 0 then [s]
      else take (nat m) s # strings_Split (drop (nat m + length sep) s) sep)"
  by pat_completeness auto
termination
proof (relation "measure (\<lambda>(s, sep). length s)")
  show "wf (measure (\<lambda>(s, sep). length s))" by simp
next
  fix s sep :: string and m :: int
  assume m: "m = strings_Index s sep" and ne: "\<not> (sep = [] \<or> m < 0)"
  have bound: "0 \<le> strings_Index t sep \<Longrightarrow> nat (strings_Index t sep) + length sep \<le> length t"
    for t
  proof (induction t)
    case Nil
    then show ?case by (simp split: if_splits)
  next
    case (Cons c cs)
    show ?case
    proof (cases "strings_HasPrefix (c # cs) sep")
      case True
      then show ?thesis by (simp add: strings_HasPrefix_def)
    next
      case False
      with Cons.prems have "0 \<le> strings_Index cs sep"
        by (simp add: Let_def split: if_splits)
      with Cons.IH False show ?thesis
        by (simp add: Let_def nat_add_distrib)
    qed
  qed
  from m ne have "nat m + length sep \<le> length s"
    using bound [of s] by simp
  moreover from ne have "0 < length sep" by simp
  ultimately have "length (drop (nat m + length sep) s) < length s"
    unfolding length_drop by linarith
  then show "((drop (nat m + length sep) s, sep), (s, sep)) \<in> measure (\<lambda>(s, sep). length s)"
    by simp
qed

declare strings_Split.simps [simp del]

text \<open>\<^verbatim>\<open>strconv.Itoa\<close>: the decimal representation of an integer.\<close>

definition digit :: "nat \<Rightarrow> char" where
  "digit d = ''0123456789'' ! d"

fun decimal :: "nat \<Rightarrow> string" where
  "decimal n = (if n < 10 then [digit n] else decimal (n div 10) @ [digit (n mod 10)])"

declare decimal.simps [simp del]

definition strconv_Itoa :: "int \<Rightarrow> string" where
  "strconv_Itoa i = (if i < 0 then CHR ''-'' # decimal (nat (- i)) else decimal (nat i))"

text \<open>
  \<^verbatim>\<open>filepath.Ext\<close> and \<^verbatim>\<open>filepath.Base\<close>, for a path separator \<open>/\<close> and no volume names
  (the library's behaviour on Unix).
\<close>

fun extScan :: "string \<Rightarrow> string \<Rightarrow> string" where
  \<comment> \<open>the bytes still to scan, last first, and the suffix already passed\<close>
  "extScan [] passed = []"
| "extScan (c # remaining) passed =
     (if c = CHR ''/'' then []
      else if c = CHR ''.'' then c # passed
      else extScan remaining (c # passed))"

definition filepath_Ext :: "string \<Rightarrow> string" where
  "filepath_Ext path = extScan (rev path) []"

definition filepath_Base :: "string \<Rightarrow> string" where
  "filepath_Base path =
     (if path = [] then ''.''
      else
        let stripped = rev (dropWhile (\<lambda>c. c = CHR ''/'') (rev path));
            element = rev (takeWhile (\<lambda>c. c \<noteq> CHR ''/'') (rev stripped))
        in if element = [] then ''/'' else element)"

subsection \<open>Ranging over a string: UTF-8 decoding\<close>

text \<open>
  \<^verbatim>\<open>for _, r := range s\<close> yields runes, not bytes: a byte below \<open>0x80\<close> is its own rune,
  anything else goes through the run-time's \<^verbatim>\<open>decoderune\<close>, which returns the decoded code
  point and its width, or \<^verbatim>\<open>RuneError\<close> (\<open>0xFFFD\<close>) with width 1 for an invalid or
  over-long encoding. Runes are \<^verbatim>\<open>int32\<close>; every value built here is below \<open>2^21\<close>, so
  they are modelled as \<^typ>\<open>int\<close>.
\<close>

type_synonym rune = int

definition runeError :: rune where
  "runeError = 0xFFFD"

definition byte :: "char \<Rightarrow> int" where
  "byte c = of_char c"

definition isCont :: "string \<Rightarrow> nat \<Rightarrow> bool" where
  \<comment> \<open>\<^verbatim>\<open>locb <= s[i] && s[i] <= hicb\<close>\<close>
  "isCont s i \<longleftrightarrow> 0x80 \<le> byte (s ! i) \<and> byte (s ! i) \<le> 0xBF"

definition decoderune :: "string \<Rightarrow> rune \<times> nat" where
  "decoderune s =
     (let b0 = byte (s ! 0) in
      if 0xC0 \<le> b0 \<and> b0 < 0xE0 then
        (if 1 < length s \<and> isCont s 1 then
           (let r = push_bit 6 (b0 AND 0x1F) OR (byte (s ! 1) AND 0x3F)
            in if 0x7F < r then (r, 2) else (runeError, 1))
         else (runeError, 1))
      else if 0xE0 \<le> b0 \<and> b0 < 0xF0 then
        (if 2 < length s \<and> isCont s 1 \<and> isCont s 2 then
           (let r = push_bit 12 (b0 AND 0x0F) OR push_bit 6 (byte (s ! 1) AND 0x3F)
                    OR (byte (s ! 2) AND 0x3F)
            in if 0x7FF < r \<and> \<not> (0xD800 \<le> r \<and> r \<le> 0xDFFF) then (r, 3) else (runeError, 1))
         else (runeError, 1))
      else if 0xF0 \<le> b0 \<and> b0 < 0xF8 then
        (if 3 < length s \<and> isCont s 1 \<and> isCont s 2 \<and> isCont s 3 then
           (let r = push_bit 18 (b0 AND 0x07) OR push_bit 12 (byte (s ! 1) AND 0x3F)
                    OR push_bit 6 (byte (s ! 2) AND 0x3F) OR (byte (s ! 3) AND 0x3F)
            in if 0xFFFF < r \<and> r \<le> 0x10FFFF then (r, 4) else (runeError, 1))
         else (runeError, 1))
      else (runeError, 1))"

fun runes :: "string \<Rightarrow> rune list" where
  "runes [] = []"
| "runes (c # cs) =
     (if byte c < 0x80 then byte c # runes cs
      else (case decoderune (c # cs) of (r, w) \<Rightarrow> r # runes (drop (w - 1) cs)))"


section \<open>Types and constants\<close>

record ruleCheckArgs =
  filePath :: string
  fileAsString :: string
  fileAsLines :: "string list"

text \<open>A check returns its message (empty when the file passes); it may also panic.\<close>

type_synonym checkFuncType = "ruleCheckArgs \<Rightarrow> error + string"

record rule =
  name :: string
  argument :: string
  fileTypeFlags :: int
  fileExtensions :: "string list"
  checkFunc :: checkFuncType

definition flagTextFile :: int where
  "flagTextFile = 1"

definition flagBinaryFile :: int where
  "flagBinaryFile = 2"

definition csharpKeywordsWithSpacedParens :: "string list" where
  "csharpKeywordsWithSpacedParens =
     [''catch'', ''for'', ''foreach'', ''if'', ''lock'', ''switch'', ''using'', ''while'']"

section \<open>Utilities\<close>

definition convertStringToLines :: "string \<Rightarrow> bool \<Rightarrow> string list" where
  "convertStringToLines s returnNonEmptyOnly =
     (if s = [] then []
      else
        let s1 = strings_Replace s [CR, LF] [LF];
            s2 = strings_Replace s1 [CR] [LF];
            lines = strings_Split s2 [LF]
        in if \<not> returnNonEmptyOnly then lines else filter (\<lambda>line. line \<noteq> []) lines)"

definition isControlCharacter :: "rune \<Rightarrow> bool" where
  "isControlCharacter char \<longleftrightarrow>
     char = 127 \<or> ((0 \<le> char \<and> char \<le> 31) \<and> char \<noteq> 9 \<and> char \<noteq> 10 \<and> char \<noteq> 13)"

fun anyControl :: "rune list \<Rightarrow> bool" where
  "anyControl [] = False"
| "anyControl (char # rest) = (if isControlCharacter char then True else anyControl rest)"

definition hasControlCharacters :: "string \<Rightarrow> bool" where
  "hasControlCharacters line = anyControl (runes line)"

fun stringArrayContains :: "string list \<Rightarrow> string \<Rightarrow> bool" where
  "stringArrayContains [] s = False"
| "stringArrayContains (element # array) s =
     (if s = element then True else stringArrayContains array s)"

definition fileError :: "string \<Rightarrow> string \<Rightarrow> string" where
  "fileError path err = path @ '': '' @ err"

definition fileAndLineError :: "string \<Rightarrow> int \<Rightarrow> string \<Rightarrow> string" where
  "fileAndLineError path lineNum err = path @ '':'' @ strconv_Itoa lineNum @ '': '' @ err"

section \<open>The rule predicates\<close>

text \<open>
  A loop over \<^verbatim>\<open>args.fileAsLines\<close> is a recursion over the lines still to visit, carrying
  the 0-based index \<open>lineNum\<close> of the next one; a \<^verbatim>\<open>return\<close> inside the loop ends it.
\<close>

fun checkEachLineFrom :: "nat \<Rightarrow> string \<Rightarrow> string list \<Rightarrow> string \<Rightarrow> (string \<Rightarrow> bool) \<Rightarrow> string" where
  "checkEachLineFrom lineNum path [] errMsg isBad = []"
| "checkEachLineFrom lineNum path (line # rest) errMsg isBad =
     (if isBad line then fileAndLineError path (int lineNum + 1) errMsg
      else checkEachLineFrom (Suc lineNum) path rest errMsg isBad)"

definition checkEachLine :: "string \<Rightarrow> string list \<Rightarrow> string \<Rightarrow> (string \<Rightarrow> bool) \<Rightarrow> string" where
  "checkEachLine path lines errMsg isBad = checkEachLineFrom 0 path lines errMsg isBad"

definition ruleCheckDoNothing :: checkFuncType where
  "ruleCheckDoNothing args = Inr []"

definition lineContainsTab :: "string \<Rightarrow> bool" where
  "lineContainsTab line = strings_ContainsRune line TAB"

definition ruleCheckNoTabs :: checkFuncType where
  "ruleCheckNoTabs args =
     Inr (checkEachLine (filePath args) (fileAsLines args) ''Tabs not allowed'' lineContainsTab)"

fun leadingSpacesScan :: "rune list \<Rightarrow> bool \<Rightarrow> bool" where
  "leadingSpacesScan [] hasSpace = hasSpace"
| "leadingSpacesScan (r # rest) hasSpace =
     (if r = 32 then leadingSpacesScan rest True else hasSpace)"

definition lineHasLeadingSpaces :: "string \<Rightarrow> bool" where
  "lineHasLeadingSpaces line = (if line = [] then False else leadingSpacesScan (runes line) False)"

definition ruleCheckNoLeadingSpaces :: checkFuncType where
  "ruleCheckNoLeadingSpaces args =
     Inr (checkEachLine (filePath args) (fileAsLines args) ''Leading spaces not allowed''
            lineHasLeadingSpaces)"

subsection \<open>TabsVsSpacesOnly\<close>

text \<open>
  The inner loop over the runes of one line either returns from the whole function with a
  message, or ends (at the first rune that is neither space nor tab, or at the end of the line)
  with the two flags updated.
\<close>

datatype indentScan =
    Found string       \<comment> \<open>\<^verbatim>\<open>return fileAndLineError(..., msg)\<close>\<close>
  | Seen bool bool     \<comment> \<open>loop left; \<open>hasTabIndent\<close>, \<open>hasSpaceIndent\<close>\<close>

fun scanIndent :: "rune list \<Rightarrow> bool \<Rightarrow> bool \<Rightarrow> indentScan" where
  "scanIndent [] hasTabIndent hasSpaceIndent = Seen hasTabIndent hasSpaceIndent"
| "scanIndent (r # rest) hasTabIndent hasSpaceIndent =
     (if r = 32 then
        (if hasTabIndent then Found ''Found first space indent with prior tab indents''
         else scanIndent rest hasTabIndent True)
      else if r = 9 then
        (if hasSpaceIndent then Found ''Found first tab indent with prior space indents''
         else scanIndent rest True hasSpaceIndent)
      else Seen hasTabIndent hasSpaceIndent)"

fun tabsVsSpacesLoop :: "string \<Rightarrow> nat \<Rightarrow> string list \<Rightarrow> bool \<Rightarrow> bool \<Rightarrow> string" where
  "tabsVsSpacesLoop path lineNum [] hasTabIndent hasSpaceIndent = []"
| "tabsVsSpacesLoop path lineNum (line # rest) hasTabIndent hasSpaceIndent =
     (case scanIndent (runes line) hasTabIndent hasSpaceIndent of
        Found msg \<Rightarrow> fileAndLineError path (int lineNum + 1) msg
      | Seen t s \<Rightarrow> tabsVsSpacesLoop path (Suc lineNum) rest t s)"

definition ruleCheckTabsVsSpacesOnly :: checkFuncType where
  "ruleCheckTabsVsSpacesOnly args =
     Inr (tabsVsSpacesLoop (filePath args) 0 (fileAsLines args) False False)"

subsection \<open>ConsistentNewlines\<close>

definition ruleCheckConsistentNewlines :: checkFuncType where
  "ruleCheckConsistentNewlines args =
     (let hasWindows = strings_Contains (fileAsString args) [CR, LF];
          s = strings_Replace (fileAsString args) [CR, LF] [];
          hasLinux = strings_ContainsRune s LF;
          hasOldMac = strings_ContainsRune s CR;
          count = (if hasWindows then 1 else 0) + (if hasLinux then 1 else 0)
                  + (if hasOldMac then 1 else (0::int))
      in if count > 1 then Inr (fileError (filePath args) ''File uses inconsistent newlines'')
         else Inr [])"

subsection \<open>ConsistentIndentWidth\<close>

fun numSpacesOf :: "rune list \<Rightarrow> nat" where
  "numSpacesOf [] = 0"
| "numSpacesOf (r # rest) = (if r \<noteq> 32 then 0 else Suc (numSpacesOf rest))"

record indentState =
  all3Spaces :: bool
  all4Spaces :: bool
  firstNon3SpaceLineNum :: int
  firstNon4SpaceLineNum :: int

definition indentStep :: "nat \<Rightarrow> string \<Rightarrow> indentState \<Rightarrow> indentState" where
  "indentStep lineNum line st =
     (let numSpaces = numSpacesOf (runes line);
          st1 = (if all3Spaces st \<and> numSpaces mod 3 \<noteq> 0
                 then st\<lparr>all3Spaces := False, firstNon3SpaceLineNum := int lineNum + 1\<rparr>
                 else st)
      in if all4Spaces st1 \<and> numSpaces mod 4 \<noteq> 0
         then st1\<lparr>all4Spaces := False, firstNon4SpaceLineNum := int lineNum + 1\<rparr>
         else st1)"

fun indentLoop :: "nat \<Rightarrow> string list \<Rightarrow> indentState \<Rightarrow> indentState" where
  "indentLoop lineNum [] st = st"
| "indentLoop lineNum (line # rest) st = indentLoop (Suc lineNum) rest (indentStep lineNum line st)"

definition ruleCheckConsistentIndentWidth :: checkFuncType where
  "ruleCheckConsistentIndentWidth args =
     (let st = indentLoop 0 (fileAsLines args)
                 \<lparr>all3Spaces = True, all4Spaces = True,
                  firstNon3SpaceLineNum = 0, firstNon4SpaceLineNum = 0\<rparr>
      in if \<not> all3Spaces st \<and> \<not> all4Spaces st then
           (if \<not> all4Spaces st
            then Inr (fileAndLineError (filePath args) (firstNon4SpaceLineNum st)
                        ''File has first non 4-space indent'')
            else Inr (fileAndLineError (filePath args) (firstNon3SpaceLineNum st)
                        ''File has first non 3-space indent''))
         else Inr [])"


subsection \<open>BadNameSpace\<close>

text \<open>
  \<^verbatim>\<open>filePath[0:base]\<close> panics when the path holds no separator (\<open>base = -1\<close>); the other
  slices are in range by the tests before them.
\<close>

definition getFilePathAsNameSpace :: "string \<Rightarrow> error + string" where
  "getFilePathAsNameSpace path =
     (let filePath = strings_Replace path [CHR 0x5C] ''/'';
          base = strings_LastIndex filePath ''/''
      in if base < 0 then Inl Panic
         else
           let dir = take (nat base) filePath;
               colon = strings_IndexByte dir CHR '':'';
               dir = (if colon \<ge> 0 then drop (nat (colon + 1)) dir else dir);
               dir = (if strings_HasPrefix dir ''/'' then drop 1 dir else dir);
               pathAsNameSpace = strings_Replace dir ''/'' ''.'';
               pathAsNameSpace = strings_Replace pathAsNameSpace [CHR 0x5C] ''.''
           in Inr pathAsNameSpace)"

fun badNameSpaceLoop :: "string \<Rightarrow> nat \<Rightarrow> string list \<Rightarrow> string \<Rightarrow> error + string" where
  "badNameSpaceLoop path lineNum [] pathAsNameSpace = Inr []"
| "badNameSpaceLoop path lineNum (l # rest) pathAsNameSpace =
     (let line = strings_Trim l [SPC, TAB] in
      if \<not> strings_HasPrefix line ''namespace ''
      then badNameSpaceLoop path (Suc lineNum) rest pathAsNameSpace
      else
        let namespace = drop (length ''namespace '') line in
        case (if pathAsNameSpace = [] then getFilePathAsNameSpace path else Inr pathAsNameSpace) of
          Inl e \<Rightarrow> Inl e
        | Inr pathAsNameSpace \<Rightarrow>
            if \<not> strings_HasSuffix pathAsNameSpace (''.'' @ namespace)
            then Inr (fileAndLineError path (int lineNum + 1)
                        (''Namespace '' @ namespace @ '' is not a suffix of '' @ pathAsNameSpace))
            else badNameSpaceLoop path (Suc lineNum) rest pathAsNameSpace)"

definition ruleCheckBadNameSpace :: checkFuncType where
  "ruleCheckBadNameSpace args = badNameSpaceLoop (filePath args) 0 (fileAsLines args) []"

subsection \<open>BadClassName\<close>

text \<open>
  The declared name of a class-declaration line, or \<open>None\<close> for a line the loop skips with
  \<^verbatim>\<open>continue\<close>.
\<close>

definition classNameOf :: "string \<Rightarrow> string option" where
  "classNameOf l =
     (let line = strings_Trim l [SPC, TAB] in
      if strings_HasPrefix line ''class '' then Some (drop (length ''class '') line)
      else if strings_HasPrefix line ''public class '' then Some (drop (length ''public class '') line)
      else if strings_HasPrefix line ''internal class ''
      then Some (drop (length ''internal class '') line)
      else None)"

fun badClassNameLoop :: "string \<Rightarrow> string \<Rightarrow> nat \<Rightarrow> string list \<Rightarrow> string" where
  "badClassNameLoop path base lineNum [] = []"
| "badClassNameLoop path base lineNum (l # rest) =
     (case classNameOf l of
        None \<Rightarrow> badClassNameLoop path base (Suc lineNum) rest
      | Some className \<Rightarrow>
          if className \<noteq> base
          then fileAndLineError path (int lineNum + 1)
                 (''Class name '' @ className @ '' should be '' @ base @ '' instead'')
          else badClassNameLoop path base (Suc lineNum) rest)"

text \<open>\<^verbatim>\<open>base[0 : len(base)-len(".cs")]\<close> panics on a base name shorter than three bytes.\<close>

definition ruleCheckBadClassName :: checkFuncType where
  "ruleCheckBadClassName args =
     (let base = filepath_Base (filePath args) in
      if length base < length ''.cs'' then Inl Panic
      else
        let base = take (length base - length ''.cs'') base
        in Inr (badClassNameLoop (filePath args) base 0 (fileAsLines args)))"

subsection \<open>The remaining predicates\<close>

fun multiplePublicClassesLoop :: "string \<Rightarrow> nat \<Rightarrow> string list \<Rightarrow> int \<Rightarrow> string" where
  "multiplePublicClassesLoop path lineNum [] count = []"
| "multiplePublicClassesLoop path lineNum (l # rest) count =
     (let line = strings_Trim l [SPC, TAB] in
      if strings_HasPrefix line ''public class '' then
        (let count = count + 1 in
         if count > 1
         then fileAndLineError path (int lineNum + 1)
                ''Cannot have multiple public classes per file''
         else multiplePublicClassesLoop path (Suc lineNum) rest count)
      else multiplePublicClassesLoop path (Suc lineNum) rest count)"

definition ruleCheckNoMultiplePublicClasses :: checkFuncType where
  "ruleCheckNoMultiplePublicClasses args =
     Inr (multiplePublicClassesLoop (filePath args) 0 (fileAsLines args) 0)"

definition ruleCheckWindowsNewlines :: checkFuncType where
  "ruleCheckWindowsNewlines args =
     (let s = strings_Replace (fileAsString args) [CR, LF] [] in
      if strings_ContainsRune s LF
      then Inr (fileError (filePath args) ''File contains non-Windows (Linux) newlines'')
      else if strings_ContainsRune s CR
      then Inr (fileError (filePath args) ''File contains non-Windows (Old Mac) newlines'')
      else Inr [])"

definition ruleCheckLinuxNewlines :: checkFuncType where
  "ruleCheckLinuxNewlines args =
     (if strings_Contains (fileAsString args) [CR, LF]
      then Inr (fileError (filePath args) ''File contains non-Linux (Windows) newlines'')
      else
        let s = strings_Replace (fileAsString args) [CR, LF] [] in
        if strings_ContainsRune s CR
        then Inr (fileError (filePath args) ''File contains non-Linux (Old Mac) newlines'')
        else Inr [])"

definition ruleCheckOldMacNewlines :: checkFuncType where
  "ruleCheckOldMacNewlines args =
     (if strings_Contains (fileAsString args) [CR, LF]
      then Inr (fileError (filePath args) ''File contains non-Old Mac (Windows) newlines'')
      else
        let s = strings_Replace (fileAsString args) [CR, LF] [] in
        if strings_ContainsRune s LF
        then Inr (fileError (filePath args) ''File contains non-Old Mac (Linux) newlines'')
        else Inr [])"

fun keywordLoop :: "string \<Rightarrow> nat \<Rightarrow> string \<Rightarrow> string list \<Rightarrow> string" where
  \<comment> \<open>what the loop over the keywords appends to the buffer for one trimmed line\<close>
  "keywordLoop path lineNum line [] = []"
| "keywordLoop path lineNum line (keyword # rest) =
     (if strings_HasPrefix line (keyword @ ''('')
      then fileAndLineError path (int lineNum + 1)
             (''Need space between keyword '' @ keyword @ '' and open paren'' @ [LF])
      else [])
     @ keywordLoop path lineNum line rest"

fun needSpaceLoop :: "string \<Rightarrow> nat \<Rightarrow> string list \<Rightarrow> string" where
  "needSpaceLoop path lineNum [] = []"
| "needSpaceLoop path lineNum (l # rest) =
     keywordLoop path lineNum (strings_Trim l [SPC, TAB]) csharpKeywordsWithSpacedParens
     @ needSpaceLoop path (Suc lineNum) rest"

definition ruleCheckNeedSpaceAfterKeyword :: checkFuncType where
  "ruleCheckNeedSpaceAfterKeyword args = Inr (needSpaceLoop (filePath args) 0 (fileAsLines args))"

section \<open>The rule catalog and the resolver\<close>

definition addRule ::
  "(string \<rightharpoonup> rule) \<Rightarrow> string \<Rightarrow> checkFuncType \<Rightarrow> int \<Rightarrow> string \<Rightarrow> (string \<rightharpoonup> rule)" where
  "addRule rulesMap ruleName check flags extensions =
     (let fileExtensionsArray = (if extensions \<noteq> [] then strings_Split extensions ''|'' else [])
      in rulesMap(ruleName \<mapsto>
           \<lparr>name = ruleName, argument = [], fileTypeFlags = flags,
            fileExtensions = fileExtensionsArray, checkFunc = check\<rparr>))"

definition initRulesDefinitions :: "string \<rightharpoonup> rule" where
  "initRulesDefinitions =
     (let defs = Map.empty;
          defs = addRule defs ''DoNothing'' ruleCheckDoNothing flagTextFile [];
          defs = addRule defs ''NoTabs'' ruleCheckNoTabs flagTextFile [];
          defs = addRule defs ''NoLeadingSpaces'' ruleCheckNoLeadingSpaces flagTextFile [];
          defs = addRule defs ''TabsVsSpacesOnly'' ruleCheckTabsVsSpacesOnly flagTextFile [];
          defs = addRule defs ''ConsistentNewlines'' ruleCheckConsistentNewlines flagTextFile [];
          defs = addRule defs ''ConsistentIndentWidth'' ruleCheckConsistentIndentWidth flagTextFile [];
          defs = addRule defs ''BadNameSpace'' ruleCheckBadNameSpace flagTextFile ''.cs'';
          defs = addRule defs ''BadClassName'' ruleCheckBadClassName flagTextFile ''.cs'';
          defs = addRule defs ''NoMultiplePublicClasses'' ruleCheckNoMultiplePublicClasses
                   flagTextFile ''.cs'';
          defs = addRule defs ''WindowsNewlines'' ruleCheckWindowsNewlines flagTextFile [];
          defs = addRule defs ''LinuxNewlines'' ruleCheckLinuxNewlines flagTextFile [];
          defs = addRule defs ''OldMacNewlines'' ruleCheckOldMacNewlines flagTextFile [];
          defs = addRule defs ''NeedSpaceAfterKeyword'' ruleCheckNeedSpaceAfterKeyword
                   flagTextFile ''.cs''
      in defs)"

definition rulesDefinitions :: "string \<rightharpoonup> rule" where
  "rulesDefinitions = initRulesDefinitions"

definition getRuleMustExist :: "string \<Rightarrow> error + rule" where
  "getRuleMustExist ruleName =
     (case rulesDefinitions ruleName of
        None \<Rightarrow> Inl (Fatal (''Unrecognized rule: '' @ ruleName))
      | Some r \<Rightarrow> Inr r)"

text \<open>
  The composite literal of \<^verbatim>\<open>cloneRule\<close> names four fields; the fifth, \<^verbatim>\<open>fileTypeFlags\<close>,
  gets the zero value of its type.
\<close>

definition cloneRule :: "rule \<Rightarrow> rule" where
  "cloneRule r =
     \<lparr>name = name r, argument = argument r, fileTypeFlags = 0,
      fileExtensions = fileExtensions r, checkFunc = checkFunc r\<rparr>"

definition parseRule :: "string \<Rightarrow> error + rule" where
  "parseRule line =
     (let spaceIndex = strings_Index line '' '' in
      if spaceIndex < 0 then getRuleMustExist line
      else
        let name = take (nat spaceIndex) line in
        case getRuleMustExist name of
          Inl e \<Rightarrow> Inl e
        | Inr ruleDef \<Rightarrow>
            let newRule = cloneRule ruleDef
            in Inr (newRule\<lparr>argument := drop (nat (spaceIndex + 1)) line\<rparr>))"

fun parseConfigLines :: "string list \<Rightarrow> rule list \<Rightarrow> error + rule list" where
  "parseConfigLines [] rules = Inr rules"
| "parseConfigLines (l # rest) rules =
     (let line = strings_Trim l [SPC, TAB] in
      if line = [] \<or> strings_HasPrefix line ''#'' \<or> strings_HasPrefix line ''//''
      then parseConfigLines rest rules
      else
        case parseRule line of
          Inl e \<Rightarrow> Inl e
        | Inr r \<Rightarrow> parseConfigLines rest (rules @ [r]))"

definition parseConfigRules :: "string \<Rightarrow> string list \<Rightarrow> error + rule list" where
  "parseConfigRules configFilePath lines =
     (case parseConfigLines lines [] of
        Inl e \<Rightarrow> Inl e
      | Inr rules \<Rightarrow>
          if length rules = 0
          then Inl (Fatal (''No rules are loaded from '' @ [DQUOTE] @ configFilePath @ [DQUOTE]))
          else Inr rules)"


section \<open>Running the rules on the files\<close>

text \<open>
  The file system and the working directory are outside the program. A \<open>world\<close> gives, for
  each path, either the bytes of the file or the text of the operating system's error, and the
  result of \<^verbatim>\<open>filepath.Abs\<close> followed by \<^verbatim>\<open>filepath.Clean\<close>.
\<close>

record world =
  readFile :: "string \<Rightarrow> string + string"
  canonical :: "string \<Rightarrow> string"

definition readFileString :: "world \<Rightarrow> string \<Rightarrow> error + string" where
  "readFileString w path =
     (case readFile w path of
        Inl err \<Rightarrow> Inl (Fatal (''Cannot read file '' @ path @ '': '' @ err))
      | Inr bytes \<Rightarrow> Inr bytes)"

text \<open>
  \<^verbatim>\<open>readFirstNChars\<close> allocates \<open>bytesCount\<close> zero bytes, lets \<^verbatim>\<open>file.Read\<close> overwrite as
  many of them as the file has, ignores the count that \<^verbatim>\<open>Read\<close> returns, and converts the
  whole buffer.
\<close>

definition readFirstNChars :: "world \<Rightarrow> string \<Rightarrow> nat \<Rightarrow> error + string" where
  "readFirstNChars w path bytesCount =
     (case readFile w path of
        Inl err \<Rightarrow>
          Inl (Fatal (''Cannot read file '' @ [DQUOTE] @ path @ [DQUOTE] @ '': '' @ err))
      | Inr content \<Rightarrow>
          Inr (take bytesCount content @ replicate (bytesCount - length content) NUL))"

definition getCanonicalPath :: "world \<Rightarrow> string \<Rightarrow> string" where
  "getCanonicalPath w path = canonical w path"

text \<open>What the run does that an observer can count, in order.\<close>

datatype event =
    ReadPrefix string             \<comment> \<open>\<^verbatim>\<open>readFirstNChars(filePath, 50)\<close>\<close>
  | LoadFile string               \<comment> \<open>\<^verbatim>\<open>readFileString(filePath)\<close>\<close>
  | CheckCalled rule ruleCheckArgs  \<comment> \<open>\<^verbatim>\<open>rule.checkFunc(args)\<close>\<close>
  | Println string                \<comment> \<open>\<^verbatim>\<open>fmt.Println(msg)\<close>\<close>

record loadState =
  fileLoaded :: bool
  loadedString :: string
  loadedLines :: "string list"

text \<open>
  The lazy load: the first rule that passes the filters reads the whole file and splits it
  into lines; later rules find \<open>fileLoaded\<close> set. A failed read is fatal.
\<close>

definition lazyLoad :: "world \<Rightarrow> string \<Rightarrow> loadState \<Rightarrow> error + (event list \<times> loadState)" where
  "lazyLoad w path st =
     (if \<not> fileLoaded st
      then (case readFileString w path of
              Inl e \<Rightarrow> Inl e
            | Inr s \<Rightarrow>
                Inr ([LoadFile path],
                     \<lparr>fileLoaded = True, loadedString = s,
                      loadedLines = convertStringToLines s False\<rparr>))
      else Inr ([], st))"

text \<open>
  The loop over the rules for one file. The result is the events in order and, when the
  process died (a fatal error or a panic), the error that ended it.
\<close>

fun rulesLoop ::
  "world \<Rightarrow> string \<Rightarrow> string \<Rightarrow> bool \<Rightarrow> rule list \<Rightarrow> loadState \<Rightarrow> event list \<times> error option" where
  "rulesLoop w fileExtension path isBinary [] st = ([], None)"
| "rulesLoop w fileExtension path isBinary (r # rest) st =
     (if length (fileExtensions r) \<noteq> 0 \<and> \<not> stringArrayContains (fileExtensions r) fileExtension
      then rulesLoop w fileExtension path isBinary rest st
      else if isBinary \<and> ((fileTypeFlags r AND flagBinaryFile) = 0)
      then rulesLoop w fileExtension path isBinary rest st
      else if \<not> isBinary \<and> ((fileTypeFlags r AND flagTextFile) = 0)
      then rulesLoop w fileExtension path isBinary rest st
      else
        case lazyLoad w path st of
          Inl e \<Rightarrow> ([LoadFile path], Some e)
        | Inr (loads, st') \<Rightarrow>
            let args = \<lparr>filePath = path, fileAsString = loadedString st',
                        fileAsLines = loadedLines st'\<rparr>
            in (case checkFunc r args of
                  Inl e \<Rightarrow> (loads @ [CheckCalled r args], Some e)
                | Inr msg \<Rightarrow>
                    let (later, res) = rulesLoop w fileExtension path isBinary rest st'
                    in (loads @ [CheckCalled r args] @ (if msg \<noteq> [] then [Println msg] else [])
                        @ later, res)))"

definition runRulesOnFile :: "world \<Rightarrow> rule list \<Rightarrow> string \<Rightarrow> event list \<times> error option" where
  "runRulesOnFile w rules file =
     (let fileExtension = filepath_Ext file;
          path = getCanonicalPath w file
      in case readFirstNChars w path 50 of
           Inl e \<Rightarrow> ([ReadPrefix path], Some e)
         | Inr firstNChars \<Rightarrow>
             let isBinary = hasControlCharacters firstNChars;
                 (evs, res) = rulesLoop w fileExtension path isBinary rules
                                \<lparr>fileLoaded = False, loadedString = [], loadedLines = []\<rparr>
             in (ReadPrefix path # evs, res))"

fun runRulesOnFiles :: "world \<Rightarrow> rule list \<Rightarrow> string list \<Rightarrow> event list \<times> error option" where
  "runRulesOnFiles w rules [] = ([], None)"
| "runRulesOnFiles w rules (file # rest) =
     (case runRulesOnFile w rules file of
        (evs, Some e) \<Rightarrow> (evs, Some e)
      | (evs, None) \<Rightarrow>
          let (later, res) = runRulesOnFiles w rules rest in (evs @ later, res))"


section \<open>Notions used to state the properties\<close>

text \<open>
  The leading token of a config line: the whole line when it contains no space, otherwise the
  text before the first space.
\<close>

definition leadingToken :: "string \<Rightarrow> string" where
  "leadingToken line = (if SPC \<notin> set line then line else takeWhile (\<lambda>c. c \<noteq> SPC) line)"

text \<open>
  Newline conventions of a raw text. A CRLF pair is a CR immediately followed by an LF; pairs
  cannot overlap, so removing them all is unambiguous. A bare LF is an LF that is not preceded
  by a CR, a bare CR is a CR that is not followed by an LF.
\<close>

definition containsCRLF :: "string \<Rightarrow> bool" where
  "containsCRLF s \<longleftrightarrow> sublist [CR, LF] s"

fun withoutCRLF :: "string \<Rightarrow> string" where
  "withoutCRLF (a # b # rest) =
     (if a = CR \<and> b = LF then withoutCRLF rest else a # withoutCRLF (b # rest))"
| "withoutCRLF s = s"

definition newlineStyles :: "string \<Rightarrow> nat" where
  \<comment> \<open>how many of the three classifications hold\<close>
  "newlineStyles s =
     length (filter id [containsCRLF s, LF \<in> set (withoutCRLF s), CR \<in> set (withoutCRLF s)])"

definition bareLF :: "string \<Rightarrow> bool" where
  "bareLF s \<longleftrightarrow> (\<exists>u v. s = u @ LF # v \<and> (u = [] \<or> last u \<noteq> CR))"

definition bareCR :: "string \<Rightarrow> bool" where
  "bareCR s \<longleftrightarrow> (\<exists>u v. s = u @ CR # v \<and> (v = [] \<or> hd v \<noteq> LF))"

text \<open>
  The leading-space count of a line, and the 1-based number of the first line whose count is
  not a multiple of \<open>w\<close>.
\<close>

definition leadingSpaces :: "string \<Rightarrow> nat" where
  "leadingSpaces line = length (takeWhile (\<lambda>c. c = SPC) line)"

definition firstLineBreaking :: "nat \<Rightarrow> string list \<Rightarrow> int" where
  "firstLineBreaking w lines =
     int (length (takeWhile (\<lambda>l. leadingSpaces l mod w = 0) lines)) + 1"

text \<open>
  The leading whitespace of a line (its longest prefix of spaces and tabs), and the two
  messages of TabsVsSpacesOnly.
\<close>

definition leadingWhitespace :: "string \<Rightarrow> string" where
  "leadingWhitespace line = takeWhile (\<lambda>c. c = SPC \<or> c = TAB) line"

definition indentStartsWithSpace :: "string \<Rightarrow> bool" where
  "indentStartsWithSpace line \<longleftrightarrow> prefix [SPC] (leadingWhitespace line)"

text \<open>
  The leading whitespace of the lines up to and including line \<open>k\<close> (0-based); the file is
  mixed by line \<open>k\<close> when that whitespace holds both a space and a tab.
\<close>

definition indentSoFar :: "string list \<Rightarrow> nat \<Rightarrow> string" where
  "indentSoFar lines k = concat (map leadingWhitespace (take (Suc k) lines))"

definition mixedBy :: "string list \<Rightarrow> nat \<Rightarrow> bool" where
  "mixedBy lines k \<longleftrightarrow> SPC \<in> set (indentSoFar lines k) \<and> TAB \<in> set (indentSoFar lines k)"

abbreviation spaceAfterTab :: string where
  "spaceAfterTab \<equiv> ''Found first space indent with prior tab indents''"

abbreviation tabAfterSpace :: string where
  "tabAfterSpace \<equiv> ''Found first tab indent with prior space indents''"

text \<open>
  The message for a file mixed by line \<open>k\<close>: which of the two characters came first.
\<close>

definition mixMessage :: "string list \<Rightarrow> nat \<Rightarrow> string" where
  "mixMessage lines k = (if hd (indentSoFar lines k) = TAB then spaceAfterTab else tabAfterSpace)"

text \<open>
  Class declarations: a line declares a class when \<^const>\<open>classNameOf\<close> gives its name; it
  is a mismatch when that name is not the expected one. The line index of the first mismatch
  is 0-based.
\<close>

definition classNameMismatch :: "string \<Rightarrow> string \<Rightarrow> bool" where
  "classNameMismatch expected l \<longleftrightarrow>
     (case classNameOf l of None \<Rightarrow> False | Some className \<Rightarrow> className \<noteq> expected)"

definition classNameMessage :: "string \<Rightarrow> string \<Rightarrow> string" where
  "classNameMessage expected l =
     ''Class name '' @ the (classNameOf l) @ '' should be '' @ expected @ '' instead''"

definition firstMismatch :: "string \<Rightarrow> string list \<Rightarrow> nat" where
  "firstMismatch expected ls = length (takeWhile (\<lambda>l. \<not> classNameMismatch expected l) ls)"

text \<open>
  Namespace declarations: the declared name of a line \<open>namespace N\<close> (after trimming spaces
  and tabs), and a mismatch against the namespace derived from the path: \<open>.N\<close> is not a
  suffix of it.
\<close>

definition declaredNamespace :: "string \<Rightarrow> string option" where
  "declaredNamespace l =
     (let line = strings_Trim l [SPC, TAB] in
      if prefix ''namespace '' line then Some (drop (length ''namespace '') line) else None)"

definition namespaceMismatch :: "string \<Rightarrow> string \<Rightarrow> bool" where
  "namespaceMismatch derived l \<longleftrightarrow>
     (case declaredNamespace l of None \<Rightarrow> False | Some N \<Rightarrow> \<not> suffix (''.'' @ N) derived)"

definition firstNamespaceMismatch :: "string \<Rightarrow> string list \<Rightarrow> nat" where
  "firstNamespaceMismatch derived ls = length (takeWhile (\<lambda>l. \<not> namespaceMismatch derived l) ls)"

definition namespaceMessage :: "string \<Rightarrow> string \<Rightarrow> string" where
  "namespaceMessage derived l =
     ''Namespace '' @ the (declaredNamespace l) @ '' is not a suffix of '' @ derived"

text \<open>
  Dispatch. A rule applies to a file when the file's extension passes the rule's extension
  filter and the file's classification is among the rule's file-type flags. The classification
  of a file is what \<^const>\<open>runRulesOnFile\<close> computes from the 50-byte prefix. From a list of
  events, the paths loaded and the checks called, in order.
\<close>

definition ruleApplies :: "rule \<Rightarrow> string \<Rightarrow> bool \<Rightarrow> bool" where
  "ruleApplies r fileExtension isBinary \<longleftrightarrow>
     (fileExtensions r = [] \<or> fileExtension \<in> set (fileExtensions r))
     \<and> (if isBinary then (fileTypeFlags r AND flagBinaryFile) \<noteq> 0
         else (fileTypeFlags r AND flagTextFile) \<noteq> 0)"

definition classifiedBinary :: "world \<Rightarrow> string \<Rightarrow> error + bool" where
  "classifiedBinary w file =
     map_sum id hasControlCharacters (readFirstNChars w (getCanonicalPath w file) 50)"

fun loadsOf :: "event list \<Rightarrow> string list" where
  "loadsOf [] = []"
| "loadsOf (LoadFile p # evs) = p # loadsOf evs"
| "loadsOf (e # evs) = loadsOf evs"

fun checksOf :: "event list \<Rightarrow> (rule \<times> ruleCheckArgs) list" where
  "checksOf [] = []"
| "checksOf (CheckCalled r a # evs) = (r, a) # checksOf evs"
| "checksOf (e # evs) = checksOf evs"

text \<open>
  A sample run: a world in which every file holds the same 50 bytes of text, four rules with a
  check that accepts everything, and the arguments the checks receive for \<open>a.txt\<close>.
\<close>

definition sampleText :: string where
  "sampleText = ''01234567890123456789012345678901234567890123456789''"

definition sampleWorld :: world where
  "sampleWorld = \<lparr>readFile = (\<lambda>p. Inr sampleText), canonical = (\<lambda>p. ''/w/'' @ p)\<rparr>"

definition sampleRule :: "string \<Rightarrow> int \<Rightarrow> string list \<Rightarrow> rule" where
  "sampleRule n flags exts =
     \<lparr>name = n, argument = [], fileTypeFlags = flags, fileExtensions = exts,
      checkFunc = ruleCheckDoNothing\<rparr>"

definition sampleRules :: "rule list" where
  "sampleRules =
     [sampleRule ''CsOnly'' flagTextFile [''.cs''],
      sampleRule ''AnyText'' flagTextFile [],
      sampleRule ''BinaryOnly'' flagBinaryFile [],
      sampleRule ''TxtOnly'' flagTextFile [''.txt'']]"

definition sampleArgs :: ruleCheckArgs where
  "sampleArgs = \<lparr>filePath = ''/w/a.txt'', fileAsString = sampleText, fileAsLines = [sampleText]\<rparr>"

section \<open>The resolver\<close>

lemma HasPrefix_single: "strings_HasPrefix (c # cs) [b] \<longleftrightarrow> c = b"
  by (simp add: strings_HasPrefix_def)

lemma Index_space:
  "strings_Index line '' '' =
     (if SPC \<in> set line then int (length (takeWhile (\<lambda>c. c \<noteq> SPC) line)) else - 1)"
  by (induction line) (simp_all add: HasPrefix_single Let_def)

lemma dom_rulesDefinitions:
  "dom rulesDefinitions =
     {''DoNothing'', ''NoTabs'', ''NoLeadingSpaces'', ''TabsVsSpacesOnly'', ''ConsistentNewlines'',
      ''ConsistentIndentWidth'', ''BadNameSpace'', ''BadClassName'', ''NoMultiplePublicClasses'',
      ''WindowsNewlines'', ''LinuxNewlines'', ''OldMacNewlines'', ''NeedSpaceAfterKeyword''}"
  by (simp add: rulesDefinitions_def initRulesDefinitions_def addRule_def Let_def insert_commute)

text \<open>Every catalog entry is registered under its own name, for text files only.\<close>

lemma rulesDefinitions_entry:
  assumes "rulesDefinitions n = Some R"
  shows "name R = n" and "fileTypeFlags R = flagTextFile" and "argument R = []"
  using assms
  by (auto simp: rulesDefinitions_def initRulesDefinitions_def addRule_def Let_def
           split: if_splits)

text \<open>
  \<^verbatim>\<open>parseRule\<close> in terms of the leading token: a line without a space gets the catalog entry
  itself, a line with a space gets the clone with the rest of the line as its argument.
\<close>

lemma parseRule_token:
  "parseRule line =
     (case getRuleMustExist (leadingToken line) of
        Inl e \<Rightarrow> Inl e
      | Inr ruleDef \<Rightarrow>
          if SPC \<in> set line
          then Inr ((cloneRule ruleDef)\<lparr>argument := drop (Suc (length (leadingToken line))) line\<rparr>)
          else Inr ruleDef)"
proof (cases "SPC \<in> set line")
  case True
  have "take (length (takeWhile (\<lambda>c. c \<noteq> SPC) line)) line = takeWhile (\<lambda>c. c \<noteq> SPC) line"
    by (rule takeWhile_eq_take [symmetric])
  with True show ?thesis
    by (cases "getRuleMustExist (takeWhile (\<lambda>c. c \<noteq> SPC) line)")
       (simp_all add: parseRule_def Index_space leadingToken_def Let_def nat_add_distrib)
next
  case False
  then show ?thesis
    by (simp add: parseRule_def Index_space leadingToken_def split: sum.splits)
qed

text \<open>
  What the resolver returns for a line with an argument: the clone has the entry's name, check
  and extensions, the rest of the line as argument, and no file-type flag at all.
\<close>

lemma parseRule_with_argument:
  assumes "SPC \<in> set line" and "rulesDefinitions (leadingToken line) = Some R"
  shows "parseRule line =
           Inr \<lparr>name = name R, argument = drop (Suc (length (leadingToken line))) line,
                fileTypeFlags = 0, fileExtensions = fileExtensions R, checkFunc = checkFunc R\<rparr>"
  using assms by (simp add: parseRule_token getRuleMustExist_def cloneRule_def)

text \<open>
  C1. For a config line with a space whose leading token names a registered rule, the claim
  wants the returned instance to agree with the catalog entry in name, check, file-type flags
  and extensions. On the line \<open>NoTabs x\<close> the instance has the argument \<open>x\<close> and the name of
  the entry, but its file-type flags are \<open>0\<close> where the entry has \<open>flagTextFile\<close>:
  \<^verbatim>\<open>cloneRule\<close> does not copy them.
\<close>

theorem parseRule_clone_drops_fileTypeFlags:
  "map_sum id fileTypeFlags (parseRule ''NoTabs x'') = Inr 0
   \<and> map_option fileTypeFlags (rulesDefinitions ''NoTabs'') = Some flagTextFile
   \<and> flagTextFile \<noteq> 0
   \<and> map_sum id name (parseRule ''NoTabs x'') = Inr ''NoTabs''
   \<and> map_sum id argument (parseRule ''NoTabs x'') = Inr ''x''"
  by (simp add: parseRule_def strings_HasPrefix_def Let_def getRuleMustExist_def
        rulesDefinitions_def initRulesDefinitions_def addRule_def cloneRule_def flagTextFile_def)

text \<open>
  C9. Resolving a config line is fatal exactly when its leading token (the whole line when it
  has no space, otherwise the text before the first space) is not a registered rule name; when
  the token is registered, resolution succeeds. No other failure is possible.
\<close>

theorem parseRule_fatal_iff_unregistered:
  "((\<exists>msg. parseRule line = Inl (Fatal msg)) \<longleftrightarrow> leadingToken line \<notin> dom rulesDefinitions)
   \<and> ((\<exists>r. parseRule line = Inr r) \<longleftrightarrow> leadingToken line \<in> dom rulesDefinitions)
   \<and> parseRule line \<noteq> Inl Panic"
  by (auto simp: parseRule_token getRuleMustExist_def split: option.splits)

section \<open>Strings and runes\<close>

lemma byte_eq_iff: "byte c = byte d \<longleftrightarrow> c = d"
  unfolding byte_def by simp

lemma byte_SPC: "byte c = 32 \<longleftrightarrow> c = SPC"
  using byte_eq_iff [of c SPC] by (simp add: byte_def)

lemma byte_TAB: "byte c = 9 \<longleftrightarrow> c = TAB"
  using byte_eq_iff [of c TAB] by (simp add: byte_def)

lemma decoderune_high: "127 < fst (decoderune s)"
  by (simp add: decoderune_def Let_def runeError_def)

lemma runes_Cons_cases:
  "(byte c < 128 \<and> runes (c # cs) = byte c # runes cs)
   \<or> (128 \<le> byte c \<and> (\<exists>r rest. runes (c # cs) = r # rest \<and> 127 < r))"
proof (cases "byte c < 128")
  case True
  then show ?thesis by simp
next
  case False
  obtain r w where d: "decoderune (c # cs) = (r, w)" by (cases "decoderune (c # cs)")
  with decoderune_high [of "c # cs"] have "127 < r" by simp
  with False d show ?thesis by simp
qed

lemma runes_SPC: "runes (SPC # cs) = 32 # runes cs"
  by (simp add: byte_def)

lemma runes_TAB: "runes (TAB # cs) = 9 # runes cs"
  by (simp add: byte_def)

lemma runes_other:
  assumes "c \<noteq> SPC" and "c \<noteq> TAB"
  shows "\<exists>r rest. runes (c # cs) = r # rest \<and> r \<noteq> 32 \<and> r \<noteq> 9"
  using runes_Cons_cases [of c cs] assms byte_SPC [of c] byte_TAB [of c] by auto

lemma runes_not_SPC:
  assumes "c \<noteq> SPC"
  shows "\<exists>r rest. runes (c # cs) = r # rest \<and> r \<noteq> 32"
  using runes_Cons_cases [of c cs] assms byte_SPC [of c] by auto

text \<open>
  The run-time decoder consumes, after the first byte, only continuation bytes (\<open>0x80\<close> and
  above). So a byte below \<open>0x80\<close> is never swallowed by a multi-byte sequence: it occurs in
  the string exactly when it occurs among the runes.
\<close>

lemma decoderune_width:
  assumes "decoderune s = (r, w)"
  shows "1 \<le> w" and "1 < w \<Longrightarrow> w \<le> length s"
    and "1 \<le> i \<Longrightarrow> i < w \<Longrightarrow> 128 \<le> byte (s ! i)"
proof -
  from assms have "w = 1 \<or> (w = 2 \<and> 1 < length s \<and> isCont s 1)
      \<or> (w = 3 \<and> 2 < length s \<and> isCont s 1 \<and> isCont s 2)
      \<or> (w = 4 \<and> 3 < length s \<and> isCont s 1 \<and> isCont s 2 \<and> isCont s 3)"
    by (auto simp: decoderune_def Let_def split: if_splits)
  then show "1 \<le> w" and "1 < w \<Longrightarrow> w \<le> length s"
    and "1 \<le> i \<Longrightarrow> i < w \<Longrightarrow> 128 \<le> byte (s ! i)"
    by (auto simp: isCont_def less_Suc_eq numeral_2_eq_2 numeral_3_eq_3 eval_nat_numeral
             elim!: less_SucE)
qed

lemma ascii_in_runes:
  "r < 128 \<Longrightarrow> r \<in> set (runes s) \<longleftrightarrow> (\<exists>c\<in>set s. byte c = r)"
proof (induction s rule: runes.induct)
  case 1
  show ?case by simp
next
  case (2 c cs)
  show ?case
  proof (cases "byte c < 128")
    case True
    with 2 show ?thesis by auto
  next
    case False
    obtain r' w where d: "decoderune (c # cs) = (r', w)" by (cases "decoderune (c # cs)")
    from decoderune_high [of "c # cs"] d have r': "127 < r'" by simp
    have skipped: "byte x \<noteq> r" if "x \<in> set (take (w - 1) cs)" for x
    proof -
      from that obtain i where i: "i < length (take (w - 1) cs)" and x: "x = take (w - 1) cs ! i"
        by (auto simp: in_set_conv_nth)
      then have "i < w - 1" and "x = (c # cs) ! Suc i" by simp_all
      with decoderune_width(3) [OF d, of "Suc i"] have "128 \<le> byte x" by simp
      with \<open>r < 128\<close> show ?thesis by simp
    qed
    have "(\<exists>x\<in>set cs. byte x = r) \<longleftrightarrow> (\<exists>x\<in>set (drop (w - 1) cs). byte x = r)"
    proof -
      have "set cs = set (take (w - 1) cs) \<union> set (drop (w - 1) cs)"
        by (metis append_take_drop_id set_append)
      with skipped show ?thesis by auto
    qed
    moreover from 2(2) [OF False d [symmetric] 2(3)]
    have "r \<in> set (runes (drop (w - 1) cs)) \<longleftrightarrow> (\<exists>x\<in>set (drop (w - 1) cs). byte x = r)" .
    ultimately show ?thesis
      using False d r' 2(3) by auto
  qed
qed


section \<open>Classifying a file as text or binary\<close>

text \<open>
  The control-character test, byte by byte: ranging over runes finds a control character
  exactly when some byte of the string is one.
\<close>

lemma anyControl_iff: "anyControl rs \<longleftrightarrow> (\<exists>r\<in>set rs. isControlCharacter r)"
  by (induction rs) auto

lemma hasControlCharacters_bytes:
  "hasControlCharacters s \<longleftrightarrow> (\<exists>c\<in>set s. isControlCharacter (byte c))"
proof -
  have "(\<exists>r\<in>set (runes s). isControlCharacter r) \<longleftrightarrow> (\<exists>c\<in>set s. isControlCharacter (byte c))"
  proof
    assume "\<exists>r\<in>set (runes s). isControlCharacter r"
    then obtain r where r: "r \<in> set (runes s)" and c: "isControlCharacter r" by blast
    from c have "r < 128" by (auto simp: isControlCharacter_def)
    from ascii_in_runes [OF this, of s] r c show "\<exists>c\<in>set s. isControlCharacter (byte c)" by auto
  next
    assume "\<exists>c\<in>set s. isControlCharacter (byte c)"
    then obtain c where c: "c \<in> set s" and k: "isControlCharacter (byte c)" by blast
    from k have "byte c < 128" by (auto simp: isControlCharacter_def)
    from ascii_in_runes [OF this, of s] c k show "\<exists>r\<in>set (runes s). isControlCharacter r" by auto
  qed
  then show ?thesis by (simp add: hasControlCharacters_def anyControl_iff)
qed

text \<open>
  Every readable file shorter than 50 bytes is classified as binary, whatever it holds: the
  buffer that is classified ends in zero bytes.
\<close>

lemma short_file_binary:
  assumes "readFile w (getCanonicalPath w file) = Inr content" and "length content < 50"
  shows "classifiedBinary w file = Inr True"
proof -
  have "NUL \<in> set (take 50 content @ replicate (50 - length content) NUL)"
    using assms(2) by simp
  moreover have "isControlCharacter (byte NUL)"
    by (simp add: isControlCharacter_def byte_def)
  ultimately have "hasControlCharacters (take 50 content @ replicate (50 - length content) NUL)"
    unfolding hasControlCharacters_bytes by blast
  with assms(1) show ?thesis
    by (simp add: classifiedBinary_def readFirstNChars_def)
qed

text \<open>
  C2. A file shorter than the 50-byte prefix should be classified by the bytes it holds. The
  three-byte file \<open>abc\<close> holds no control character, yet the buffer that is classified is
  \<open>abc\<close> followed by 47 zero bytes, so the file counts as binary and a text-only rule such
  as \<open>NoTabs\<close> is never run on it.
\<close>

theorem short_text_file_classified_binary:
  "readFirstNChars \<lparr>readFile = (\<lambda>p. Inr ''abc''), canonical = (\<lambda>p. p)\<rparr> ''f'' 50
     = Inr (''abc'' @ replicate 47 NUL)
   \<and> hasControlCharacters (''abc'' @ replicate 47 NUL)
   \<and> \<not> hasControlCharacters ''abc''
   \<and> runRulesOnFile \<lparr>readFile = (\<lambda>p. Inr ''abc''), canonical = (\<lambda>p. p)\<rparr>
         [\<lparr>name = ''NoTabs'', argument = [], fileTypeFlags = flagTextFile,
           fileExtensions = [], checkFunc = ruleCheckNoTabs\<rparr>] ''f''
       = ([ReadPrefix ''f''], None)"
  by (simp add: runRulesOnFile_def getCanonicalPath_def readFirstNChars_def
        hasControlCharacters_def byte_def isControlCharacter_def
        flagTextFile_def flagBinaryFile_def eval_nat_numeral lazyLoad_def)

section \<open>ConsistentNewlines\<close>

lemma HasPrefix_prefix: "strings_HasPrefix s p \<longleftrightarrow> prefix p s"
  unfolding strings_HasPrefix_def
  by (metis append_eq_conv_conj prefix_def prefix_length_le take_is_prefix)

lemma Replace_CRLF: "strings_Replace s [CR, LF] [] = withoutCRLF s"
  by (induction s rule: withoutCRLF.induct) (auto simp: HasPrefix_prefix)

lemma Index_nonneg_iff: "0 \<le> strings_Index s sub \<longleftrightarrow> sublist sub s"
proof (induction s)
  case Nil
  then show ?case by simp
next
  case (Cons c cs)
  then show ?case
    by (auto simp: HasPrefix_prefix Let_def sublist_Cons_right)
qed

lemma Contains_CRLF: "strings_Contains s [CR, LF] \<longleftrightarrow> containsCRLF s"
  by (simp add: strings_Contains_def Index_nonneg_iff containsCRLF_def)

lemma ContainsRune_set: "strings_ContainsRune s b \<longleftrightarrow> b \<in> set s"
  unfolding strings_ContainsRune_def
  by (induction s) (auto simp: Let_def)

lemma bareLF_Nil: "\<not> bareLF []"
  by (simp add: bareLF_def)

lemma bareLF_single: "bareLF [c] \<longleftrightarrow> c = LF"
  by (auto simp: bareLF_def Cons_eq_append_conv)


lemma bareLF_Cons: "bareLF (a # s) \<longleftrightarrow> a = LF \<or> (\<exists>u v. s = u @ LF # v \<and> last (a # u) \<noteq> CR)"
proof
  assume "bareLF (a # s)"
  then obtain u v where d: "a # s = u @ LF # v" and b: "u = [] \<or> last u \<noteq> CR"
    by (auto simp: bareLF_def)
  show "a = LF \<or> (\<exists>u v. s = u @ LF # v \<and> last (a # u) \<noteq> CR)"
  proof (cases u)
    case Nil
    with d show ?thesis by simp
  next
    case (Cons x u')
    with d b have "s = u' @ LF # v" and "last (a # u') \<noteq> CR" by auto
    then show ?thesis by blast
  qed
next
  assume "a = LF \<or> (\<exists>u v. s = u @ LF # v \<and> last (a # u) \<noteq> CR)"
  then show "bareLF (a # s)"
  proof
    assume "a = LF"
    then have "a # s = [] @ LF # s" by simp
    then show ?thesis unfolding bareLF_def by blast
  next
    assume "\<exists>u v. s = u @ LF # v \<and> last (a # u) \<noteq> CR"
    then obtain u v where "s = u @ LF # v" and "last (a # u) \<noteq> CR" by blast
    then have "a # s = (a # u) @ LF # v \<and> last (a # u) \<noteq> CR" by simp
    then show ?thesis unfolding bareLF_def by blast
  qed
qed

lemma lfAfter_Cons:
  "(\<exists>u v. b # rest = u @ LF # v \<and> last (a # u) \<noteq> CR) \<longleftrightarrow>
     (b = LF \<and> a \<noteq> CR) \<or> (\<exists>u v. rest = u @ LF # v \<and> last (b # u) \<noteq> CR)"
proof
  assume "\<exists>u v. b # rest = u @ LF # v \<and> last (a # u) \<noteq> CR"
  then obtain u v where d: "b # rest = u @ LF # v" and l: "last (a # u) \<noteq> CR" by blast
  show "(b = LF \<and> a \<noteq> CR) \<or> (\<exists>u v. rest = u @ LF # v \<and> last (b # u) \<noteq> CR)"
  proof (cases u)
    case Nil
    with d l show ?thesis by simp
  next
    case (Cons x u')
    with d l have "rest = u' @ LF # v \<and> last (b # u') \<noteq> CR" by auto
    then show ?thesis by blast
  qed
next
  assume "(b = LF \<and> a \<noteq> CR) \<or> (\<exists>u v. rest = u @ LF # v \<and> last (b # u) \<noteq> CR)"
  then show "\<exists>u v. b # rest = u @ LF # v \<and> last (a # u) \<noteq> CR"
  proof
    assume "b = LF \<and> a \<noteq> CR"
    then have "b # rest = [] @ LF # rest \<and> last (a # []) \<noteq> CR" by simp
    then show ?thesis by blast
  next
    assume "\<exists>u v. rest = u @ LF # v \<and> last (b # u) \<noteq> CR"
    then obtain u v where "rest = u @ LF # v" and "last (b # u) \<noteq> CR" by blast
    then have "b # rest = (b # u) @ LF # v \<and> last (a # b # u) \<noteq> CR" by simp
    then show ?thesis by blast
  qed
qed

lemma bareLF_after_LF: "(\<exists>u v. rest = u @ LF # v \<and> last (LF # u) \<noteq> CR) \<longleftrightarrow> bareLF rest"
  unfolding bareLF_def by (rule ex_cong1, rule ex_cong1) auto

lemma bareLF_CRLF: "bareLF (CR # LF # rest) \<longleftrightarrow> bareLF rest"
  by (subst bareLF_Cons, subst lfAfter_Cons, subst bareLF_after_LF) simp

lemma bareLF_other:
  "\<not> (a = CR \<and> b = LF) \<Longrightarrow> bareLF (a # b # rest) \<longleftrightarrow> a = LF \<or> bareLF (b # rest)"
proof -
  assume n: "\<not> (a = CR \<and> b = LF)"
  have "bareLF (a # b # rest) \<longleftrightarrow>
          a = LF \<or> (b = LF \<and> a \<noteq> CR) \<or> (\<exists>u v. rest = u @ LF # v \<and> last (b # u) \<noteq> CR)"
    by (subst bareLF_Cons, subst lfAfter_Cons) (rule refl)
  moreover have "bareLF (b # rest) \<longleftrightarrow> b = LF \<or> (\<exists>u v. rest = u @ LF # v \<and> last (b # u) \<noteq> CR)"
    by (rule bareLF_Cons)
  ultimately show ?thesis using n by blast
qed

lemma LF_without: "LF \<in> set (withoutCRLF s) \<longleftrightarrow> bareLF s"
proof (induction s rule: withoutCRLF.induct)
  case (1 a b rest)
  then show ?case by (cases "a = CR \<and> b = LF") (auto simp: bareLF_CRLF bareLF_other)
qed (auto simp: bareLF_Nil bareLF_single)

lemma bareCR_Nil: "\<not> bareCR []"
  by (simp add: bareCR_def)

lemma bareCR_single: "bareCR [c] \<longleftrightarrow> c = CR"
  by (auto simp: bareCR_def Cons_eq_append_conv)

lemma bareCR_Cons: "bareCR (a # s) \<longleftrightarrow> (a = CR \<and> (s = [] \<or> hd s \<noteq> LF)) \<or> bareCR s"
proof
  assume "bareCR (a # s)"
  then obtain u v where d: "a # s = u @ CR # v" and b: "v = [] \<or> hd v \<noteq> LF"
    by (auto simp: bareCR_def)
  show "(a = CR \<and> (s = [] \<or> hd s \<noteq> LF)) \<or> bareCR s"
  proof (cases u)
    case Nil
    with d b show ?thesis by auto
  next
    case (Cons x u')
    with d b have "s = u' @ CR # v \<and> (v = [] \<or> hd v \<noteq> LF)" by auto
    then show ?thesis unfolding bareCR_def by blast
  qed
next
  assume "(a = CR \<and> (s = [] \<or> hd s \<noteq> LF)) \<or> bareCR s"
  then show "bareCR (a # s)"
  proof
    assume "a = CR \<and> (s = [] \<or> hd s \<noteq> LF)"
    then have "a # s = [] @ CR # s \<and> (s = [] \<or> hd s \<noteq> LF)" by simp
    then show ?thesis unfolding bareCR_def by blast
  next
    assume "bareCR s"
    then obtain u v where "s = u @ CR # v" and "v = [] \<or> hd v \<noteq> LF"
      by (auto simp: bareCR_def)
    then have "a # s = (a # u) @ CR # v \<and> (v = [] \<or> hd v \<noteq> LF)" by simp
    then show ?thesis unfolding bareCR_def by blast
  qed
qed

lemma CR_without: "CR \<in> set (withoutCRLF s) \<longleftrightarrow> bareCR s"
proof (induction s rule: withoutCRLF.induct)
  case (1 a b rest)
  then show ?case by (cases "a = CR \<and> b = LF") (auto simp: bareCR_Cons)
qed (auto simp: bareCR_Nil bareCR_single)


lemma ruleCheckConsistentNewlines_styles:
  "ruleCheckConsistentNewlines args =
     Inr (if 1 < newlineStyles (fileAsString args)
          then fileError (filePath args) ''File uses inconsistent newlines'' else [])"
  by (simp add: ruleCheckConsistentNewlines_def Let_def Replace_CRLF Contains_CRLF
        ContainsRune_set newlineStyles_def)

text \<open>
  C6. The predicate fails exactly when more than one of three classifications holds of the raw
  text: it contains a CRLF pair; with all CRLF pairs removed it contains an LF; with all CRLF
  pairs removed it contains a CR. An LF survives the removal exactly when it is bare in the raw
  text, and likewise a CR. So a text in which no LF and no CR is bare (only CRLF) passes, and
  a text with a CRLF pair and a bare LF fails.
\<close>

theorem consistentNewlines_fails_iff_mixed:
  "ruleCheckConsistentNewlines args =
     Inr (if 1 < newlineStyles (fileAsString args)
          then fileError (filePath args) ''File uses inconsistent newlines'' else [])
   \<and> (LF \<in> set (withoutCRLF (fileAsString args)) \<longleftrightarrow> bareLF (fileAsString args))
   \<and> (CR \<in> set (withoutCRLF (fileAsString args)) \<longleftrightarrow> bareCR (fileAsString args))
   \<and> (\<not> bareLF (fileAsString args) \<and> \<not> bareCR (fileAsString args)
        \<longrightarrow> ruleCheckConsistentNewlines args = Inr [])
   \<and> (containsCRLF (fileAsString args) \<and> bareLF (fileAsString args)
        \<longrightarrow> ruleCheckConsistentNewlines args
              = Inr (fileError (filePath args) ''File uses inconsistent newlines''))"
  by (simp add: ruleCheckConsistentNewlines_styles LF_without CR_without newlineStyles_def)

theorem consistentNewlines_fails_iff_mixed_witness:
  "\<not> bareLF [CHR ''a'', CR, LF, CHR ''b'', CR, LF]
   \<and> \<not> bareCR [CHR ''a'', CR, LF, CHR ''b'', CR, LF]
   \<and> ruleCheckConsistentNewlines
        \<lparr>filePath = ''f'', fileAsString = [CHR ''a'', CR, LF, CHR ''b'', CR, LF],
         fileAsLines = [''a'', ''b'', []]\<rparr> = Inr []
   \<and> containsCRLF [CHR ''a'', CR, LF, CHR ''b'', LF]
   \<and> bareLF [CHR ''a'', CR, LF, CHR ''b'', LF]
   \<and> ruleCheckConsistentNewlines
        \<lparr>filePath = ''f'', fileAsString = [CHR ''a'', CR, LF, CHR ''b'', LF],
         fileAsLines = [''a'', ''b'', []]\<rparr> = Inr ''f: File uses inconsistent newlines''"
proof -
  define A where
    "A = \<lparr>filePath = ''f'', fileAsString = [CHR ''a'', CR, LF, CHR ''b'', CR, LF],
          fileAsLines = [''a'', ''b'', []]\<rparr>"
  define B where
    "B = \<lparr>filePath = ''f'', fileAsString = [CHR ''a'', CR, LF, CHR ''b'', LF],
          fileAsLines = [''a'', ''b'', []]\<rparr>"
  have a: "\<not> bareLF (fileAsString A)" and b: "\<not> bareCR (fileAsString A)"
    by (simp_all add: A_def LF_without [symmetric] CR_without [symmetric])
  have c: "containsCRLF (fileAsString B)"
    by (simp add: B_def Contains_CRLF [symmetric] strings_Contains_def strings_HasPrefix_def)
  have d: "bareLF (fileAsString B)"
    by (simp add: B_def LF_without [symmetric])
  from consistentNewlines_fails_iff_mixed [of A] a b
  have passes: "ruleCheckConsistentNewlines A = Inr []"
    by blast
  from consistentNewlines_fails_iff_mixed [of B] c d
  have fails: "ruleCheckConsistentNewlines B
                 = Inr (fileError (filePath B) ''File uses inconsistent newlines'')"
    by blast
  from a b c d passes fails show ?thesis
    by (simp add: A_def B_def fileError_def)
qed

section \<open>ConsistentIndentWidth\<close>

lemma numSpacesOf_runes: "numSpacesOf (runes line) = leadingSpaces line"
proof (induction line)
  case Nil
  show ?case by (simp add: leadingSpaces_def)
next
  case (Cons c cs)
  show ?case
  proof (cases "c = SPC")
    case True
    with Cons show ?thesis by (simp add: byte_def leadingSpaces_def)
  next
    case False
    from runes_not_SPC [OF False, of cs] obtain r rest
      where "runes (c # cs) = r # rest" and "r \<noteq> 32" by blast
    with False show ?thesis by (simp add: leadingSpaces_def)
  qed
qed

lemma indentStep_simps:
  "all3Spaces (indentStep n l st) \<longleftrightarrow> all3Spaces st \<and> leadingSpaces l mod 3 = 0"
  "all4Spaces (indentStep n l st) \<longleftrightarrow> all4Spaces st \<and> leadingSpaces l mod 4 = 0"
  "firstNon4SpaceLineNum (indentStep n l st) =
     (if all4Spaces st \<and> leadingSpaces l mod 4 \<noteq> 0 then int n + 1 else firstNon4SpaceLineNum st)"
  "firstNon3SpaceLineNum (indentStep n l st) =
     (if all3Spaces st \<and> leadingSpaces l mod 3 \<noteq> 0 then int n + 1 else firstNon3SpaceLineNum st)"
  by (auto simp: indentStep_def Let_def numSpacesOf_runes)

lemma indentLoop_all3:
  "all3Spaces (indentLoop n ls st) \<longleftrightarrow> all3Spaces st \<and> (\<forall>l\<in>set ls. leadingSpaces l mod 3 = 0)"
  by (induction ls arbitrary: n st) (auto simp: indentStep_simps)

lemma indentLoop_all4:
  "all4Spaces (indentLoop n ls st) \<longleftrightarrow> all4Spaces st \<and> (\<forall>l\<in>set ls. leadingSpaces l mod 4 = 0)"
  by (induction ls arbitrary: n st) (auto simp: indentStep_simps)

lemma indentLoop_keep4:
  "\<not> all4Spaces st \<Longrightarrow> firstNon4SpaceLineNum (indentLoop n ls st) = firstNon4SpaceLineNum st"
  by (induction ls arbitrary: n st) (auto simp: indentStep_simps)

lemma indentLoop_first4:
  "all4Spaces st \<Longrightarrow> \<not> (\<forall>l\<in>set ls. leadingSpaces l mod 4 = 0) \<Longrightarrow>
     firstNon4SpaceLineNum (indentLoop n ls st) = int n + firstLineBreaking 4 ls"
proof (induction ls arbitrary: n st)
  case Nil
  then show ?case by simp
next
  case (Cons l ls)
  show ?case
  proof (cases "leadingSpaces l mod 4 = 0")
    case True
    with Cons.prems have "all4Spaces (indentStep n l st)" and "\<not> (\<forall>l\<in>set ls. leadingSpaces l mod 4 = 0)"
      by (auto simp: indentStep_simps)
    from Cons.IH [OF this, of "Suc n"] True show ?thesis
      by (simp add: firstLineBreaking_def)
  next
    case False
    with Cons.prems have "\<not> all4Spaces (indentStep n l st)"
      and "firstNon4SpaceLineNum (indentStep n l st) = int n + 1"
      by (auto simp: indentStep_simps)
    with False show ?thesis
      by (simp add: indentLoop_keep4 firstLineBreaking_def)
  qed
qed


text \<open>
  C4. The predicate passes when every line's leading-space count is a multiple of 3, or every
  one is a multiple of 4 (in particular when no line is indented); otherwise both properties
  are broken and it fails, naming the first line whose count is not a multiple of 4, with the
  non-4-space message.
\<close>

theorem consistentIndentWidth_result:
  "ruleCheckConsistentIndentWidth args =
     Inr (if (\<forall>l\<in>set (fileAsLines args). leadingSpaces l mod 3 = 0)
             \<or> (\<forall>l\<in>set (fileAsLines args). leadingSpaces l mod 4 = 0)
          then []
          else fileAndLineError (filePath args) (firstLineBreaking 4 (fileAsLines args))
                 ''File has first non 4-space indent'')"
  using indentLoop_first4 [of _ "fileAsLines args" 0]
  by (auto simp: ruleCheckConsistentIndentWidth_def Let_def indentLoop_all3 indentLoop_all4)

text \<open>Leading-space counts 0, 4, 5: line 3 is reported.\<close>

theorem consistentIndentWidth_result_witness:
  "map leadingSpaces [''a'', ''    b'', ''     c''] = [0, 4, 5]
   \<and> ruleCheckConsistentIndentWidth
        \<lparr>filePath = ''f'', fileAsString = [], fileAsLines = [''a'', ''    b'', ''     c'']\<rparr>
       = Inr ''f:3: File has first non 4-space indent''
   \<and> ruleCheckConsistentIndentWidth
        \<lparr>filePath = ''f'', fileAsString = [], fileAsLines = [''a'', ''   b'', ''      c'']\<rparr>
       = Inr []"
  using consistentIndentWidth_result
          [of "\<lparr>filePath = ''f'', fileAsString = [],
                fileAsLines = [''a'', ''    b'', ''     c'']\<rparr>"]
        consistentIndentWidth_result
          [of "\<lparr>filePath = ''f'', fileAsString = [],
                fileAsLines = [''a'', ''   b'', ''      c'']\<rparr>"]
  by (simp add: leadingSpaces_def firstLineBreaking_def fileAndLineError_def strconv_Itoa_def
        decimal.simps digit_def)


section \<open>TabsVsSpacesOnly\<close>

lemma scanIndent_Nil: "scanIndent (runes []) t s = Seen t s"
  by simp

lemma scanIndent_Cons:
  "scanIndent (runes (c # cs)) t s =
     (if c = SPC then (if t then Found spaceAfterTab else scanIndent (runes cs) t True)
      else if c = TAB then (if s then Found tabAfterSpace else scanIndent (runes cs) True s)
      else Seen t s)"
proof (cases "c = SPC \<or> c = TAB")
  case True
  then show ?thesis by (auto simp: byte_def)
next
  case False
  then obtain r rest where "runes (c # cs) = r # rest" and "r \<noteq> 32" and "r \<noteq> 9"
    using runes_other [of c cs] by blast
  with False show ?thesis by simp
qed

text \<open>Tabs only and no space seen so far: the scan ends with the space flag still off.\<close>

lemma scanIndent_tabs_only:
  "SPC \<notin> set (leadingWhitespace line) \<Longrightarrow>
     scanIndent (runes line) t False = Seen (t \<or> TAB \<in> set (leadingWhitespace line)) False"
  by (induction line arbitrary: t) (auto simp: scanIndent_Cons leadingWhitespace_def simp del: runes.simps(2))

lemma scanIndent_space_after_tab:
  "line \<noteq> [] \<Longrightarrow> hd line = SPC \<Longrightarrow> scanIndent (runes line) True s = Found spaceAfterTab"
  by (cases line) (auto simp: scanIndent_Cons simp del: runes.simps(2))


lemma indentStartsWithSpace_iff: "indentStartsWithSpace line \<longleftrightarrow> line \<noteq> [] \<and> hd line = SPC"
  by (cases line) (auto simp: indentStartsWithSpace_def leadingWhitespace_def)

lemma tabs_only_iff: "set (leadingWhitespace line) \<subseteq> {TAB} \<longleftrightarrow> SPC \<notin> set (leadingWhitespace line)"
  unfolding leadingWhitespace_def
  by (auto dest: set_takeWhileD)

lemma tabsVsSpacesLoop_tabs_only:
  "\<forall>l\<in>set ls. SPC \<notin> set (leadingWhitespace l) \<Longrightarrow> tabsVsSpacesLoop path n ls t False = []"
  by (induction ls arbitrary: n t) (simp_all add: scanIndent_tabs_only)

lemma tabsVsSpacesLoop_first_space_after_tab:
  assumes "j < length ls" and "indentStartsWithSpace (ls ! j)"
    and "\<forall>m<j. SPC \<notin> set (leadingWhitespace (ls ! m))"
  shows "tabsVsSpacesLoop path n ls True False
           = fileAndLineError path (int n + int j + 1) spaceAfterTab"
  using assms
proof (induction ls arbitrary: n j)
  case Nil
  then show ?case by simp
next
  case (Cons l rest)
  show ?case
  proof (cases j)
    case 0
    with Cons.prems show ?thesis
      by (simp add: indentStartsWithSpace_iff scanIndent_space_after_tab)
  next
    case (Suc j')
    with Cons.prems have "SPC \<notin> set (leadingWhitespace l)" by auto
    then have scan: "scanIndent (runes l) True False = Seen True False"
      by (simp add: scanIndent_tabs_only)
    from Suc Cons.prems have "j' < length rest" and "indentStartsWithSpace (rest ! j')"
      and "\<forall>m<j'. SPC \<notin> set (leadingWhitespace (rest ! m))"
      by auto
    from Cons.IH [OF this, of "Suc n"] scan Suc show ?thesis by simp
  qed
qed

lemma tabsVsSpacesLoop_exact:
  assumes "i < j" and "j < length ls" and "TAB \<in> set (leadingWhitespace (ls ! i))"
    and "indentStartsWithSpace (ls ! j)"
    and "\<forall>m<j. SPC \<notin> set (leadingWhitespace (ls ! m))"
  shows "tabsVsSpacesLoop path n ls t False
           = fileAndLineError path (int n + int j + 1) spaceAfterTab"
  using assms
proof (induction ls arbitrary: n i j t)
  case Nil
  then show ?case by simp
next
  case (Cons l rest)
  from Cons.prems obtain j' where j: "j = Suc j'" by (cases j) simp_all
  with Cons.prems have j': "j' < length rest" and sp: "indentStartsWithSpace (rest ! j')"
    and clean: "\<forall>m<j'. SPC \<notin> set (leadingWhitespace (rest ! m))"
    and l: "SPC \<notin> set (leadingWhitespace l)"
    by auto
  from l have scan: "scanIndent (runes l) t False
                       = Seen (t \<or> TAB \<in> set (leadingWhitespace l)) False"
    by (rule scanIndent_tabs_only)
  show ?case
  proof (cases i)
    case 0
    with Cons.prems scan have "scanIndent (runes l) t False = Seen True False" by simp
    with tabsVsSpacesLoop_first_space_after_tab [OF j' sp clean, of path "Suc n"] j
    show ?thesis by simp
  next
    case (Suc i')
    with Cons.prems j have "i' < j'" and "TAB \<in> set (leadingWhitespace (rest ! i'))" by simp_all
    from Cons.IH [OF this(1) j' this(2) sp clean, of "Suc n"] scan j show ?thesis by simp
  qed
qed

text \<open>
  The scan of one line, exactly: started with at most one flag set, it returns from the check
  when the flags and the line's leading whitespace hold both characters between them, and
  otherwise ends with the flags extended by what the line holds.
\<close>

lemma leadingWhitespace_chars: "set (leadingWhitespace line) \<subseteq> {SPC, TAB}"
  unfolding leadingWhitespace_def by (auto dest: set_takeWhileD)

lemma leadingWhitespace_Cons:
  "leadingWhitespace (c # cs) = (if c = SPC \<or> c = TAB then c # leadingWhitespace cs else [])"
  by (simp add: leadingWhitespace_def)

lemma scanIndent_exact:
  assumes "\<not> (t \<and> s)"
  shows "scanIndent (runes line) t s =
     (if (t \<or> TAB \<in> set (leadingWhitespace line)) \<and> (s \<or> SPC \<in> set (leadingWhitespace line))
      then Found (if t \<or> (\<not> s \<and> hd (leadingWhitespace line) = TAB)
                  then spaceAfterTab else tabAfterSpace)
      else Seen (t \<or> TAB \<in> set (leadingWhitespace line))
                (s \<or> SPC \<in> set (leadingWhitespace line)))"
  using assms
proof (induction line arbitrary: t s)
  case Nil
  then show ?case by (simp add: leadingWhitespace_def)
next
  case (Cons c cs)
  consider (space) "c = SPC" | (tab) "c = TAB" | (other) "c \<noteq> SPC" "c \<noteq> TAB" by blast
  then show ?case
  proof cases
    case space
    show ?thesis
    proof (cases t)
      case True
      with space show ?thesis
        by (simp add: scanIndent_Cons leadingWhitespace_Cons del: runes.simps(2))
    next
      case False
      with space Cons.IH [of False True] show ?thesis
        by (simp add: scanIndent_Cons leadingWhitespace_Cons del: runes.simps(2))
    qed
  next
    case tab
    show ?thesis
    proof (cases s)
      case True
      with tab Cons.prems show ?thesis
        by (simp add: scanIndent_Cons leadingWhitespace_Cons del: runes.simps(2))
    next
      case False
      with tab Cons.IH [of True False] show ?thesis
        by (simp add: scanIndent_Cons leadingWhitespace_Cons del: runes.simps(2))
    qed
  next
    case other
    with Cons.prems show ?thesis
      by (simp add: scanIndent_Cons leadingWhitespace_Cons del: runes.simps(2))
  qed
qed

lemma indentSoFar_0: "indentSoFar (l # rest) 0 = leadingWhitespace l"
  by (simp add: indentSoFar_def)

lemma indentSoFar_Suc: "indentSoFar (l # rest) (Suc k) = leadingWhitespace l @ indentSoFar rest k"
  by (simp add: indentSoFar_def)

text \<open>The first character of a uniform prefix followed by more whitespace.\<close>

lemma hd_uniform:
  assumes "set p \<subseteq> {SPC, TAB}" and "\<not> (TAB \<in> set p \<and> SPC \<in> set p)"
  shows "hd (p @ w) = TAB \<longleftrightarrow> TAB \<in> set p \<or> (SPC \<notin> set p \<and> hd w = TAB)"
  using assms by (cases p) auto

lemma tabsVsSpacesLoop_first_mixed:
  assumes "set p \<subseteq> {SPC, TAB}" and "\<not> (TAB \<in> set p \<and> SPC \<in> set p)"
    and "k < length ls"
    and "SPC \<in> set (p @ indentSoFar ls k) \<and> TAB \<in> set (p @ indentSoFar ls k)"
    and "\<forall>m<k. \<not> (SPC \<in> set (p @ indentSoFar ls m) \<and> TAB \<in> set (p @ indentSoFar ls m))"
  shows "tabsVsSpacesLoop path n ls (TAB \<in> set p) (SPC \<in> set p) =
           fileAndLineError path (int n + int k + 1)
             (if hd (p @ indentSoFar ls k) = TAB then spaceAfterTab else tabAfterSpace)"
  using assms
proof (induction ls arbitrary: n k p)
  case Nil
  then show ?case by simp
next
  case (Cons l rest)
  let ?w = "leadingWhitespace l"
  note scan = scanIndent_exact [of "TAB \<in> set p" "SPC \<in> set p" l, OF Cons.prems(2)]
  show ?case
  proof (cases k)
    case 0
    with Cons.prems(4) have mixed: "(TAB \<in> set p \<or> TAB \<in> set ?w) \<and> (SPC \<in> set p \<or> SPC \<in> set ?w)"
      by (auto simp: indentSoFar_0)
    from hd_uniform [OF Cons.prems(1,2), of ?w]
    have "(hd (p @ ?w) = TAB) = (TAB \<in> set p \<or> (SPC \<notin> set p \<and> hd ?w = TAB))" .
    with mixed 0 scan show ?thesis
      by (simp add: indentSoFar_0)
  next
    case (Suc k')
    with Cons.prems(5) have "\<not> (SPC \<in> set (p @ indentSoFar (l # rest) 0)
                                \<and> TAB \<in> set (p @ indentSoFar (l # rest) 0))"
      by blast
    then have clean: "\<not> (TAB \<in> set (p @ ?w) \<and> SPC \<in> set (p @ ?w))"
      by (auto simp: indentSoFar_0)
    with scan have step: "scanIndent (runes l) (TAB \<in> set p) (SPC \<in> set p)
                            = Seen (TAB \<in> set (p @ ?w)) (SPC \<in> set (p @ ?w))"
      by auto
    have chars: "set (p @ ?w) \<subseteq> {SPC, TAB}"
      using Cons.prems(1) leadingWhitespace_chars [of l] by auto
    from Suc Cons.prems(3) have k': "k' < length rest" by simp
    from Suc Cons.prems(4)
    have mixed: "SPC \<in> set ((p @ ?w) @ indentSoFar rest k') \<and> TAB \<in> set ((p @ ?w) @ indentSoFar rest k')"
      by (simp add: indentSoFar_Suc)
    have first: "\<forall>m<k'. \<not> (SPC \<in> set ((p @ ?w) @ indentSoFar rest m)
                            \<and> TAB \<in> set ((p @ ?w) @ indentSoFar rest m))"
    proof (intro allI impI)
      fix m assume "m < k'"
      with Suc have "Suc m < k" by simp
      with Cons.prems(5) have "\<not> (SPC \<in> set (p @ indentSoFar (l # rest) (Suc m))
                                \<and> TAB \<in> set (p @ indentSoFar (l # rest) (Suc m)))"
        by blast
      then show "\<not> (SPC \<in> set ((p @ ?w) @ indentSoFar rest m)
                            \<and> TAB \<in> set ((p @ ?w) @ indentSoFar rest m))"
        by (simp add: indentSoFar_Suc)
    qed
    from Cons.IH [OF chars clean k' mixed first, of "Suc n"] step Suc show ?thesis
      by (simp add: indentSoFar_Suc)
  qed
qed

lemma tabsVsSpacesLoop_never_mixed:
  assumes "\<not> (TAB \<in> set (p @ concat (map leadingWhitespace ls))
              \<and> SPC \<in> set (p @ concat (map leadingWhitespace ls)))"
  shows "tabsVsSpacesLoop path n ls (TAB \<in> set p) (SPC \<in> set p) = []"
  using assms
proof (induction ls arbitrary: n p)
  case Nil
  show ?case by simp
next
  case (Cons l rest)
  let ?w = "leadingWhitespace l"
  from Cons.prems have inv: "\<not> (TAB \<in> set p \<and> SPC \<in> set p)"
    and clean: "\<not> ((TAB \<in> set p \<or> TAB \<in> set ?w) \<and> (SPC \<in> set p \<or> SPC \<in> set ?w))"
    by auto
  from scanIndent_exact [of "TAB \<in> set p" "SPC \<in> set p" l, OF inv] clean
  have step: "scanIndent (runes l) (TAB \<in> set p) (SPC \<in> set p)
                = Seen (TAB \<in> set (p @ ?w)) (SPC \<in> set (p @ ?w))"
    by auto
  from Cons.prems have "\<not> (TAB \<in> set ((p @ ?w) @ concat (map leadingWhitespace rest))
              \<and> SPC \<in> set ((p @ ?w) @ concat (map leadingWhitespace rest)))"
    by simp
  from Cons.IH [OF this, of "Suc n"] step show ?case by simp
qed

lemma first_mixed_exists:
  assumes "mixedBy lines j"
  shows "\<exists>k\<le>j. mixedBy lines k \<and> (\<forall>m<k. \<not> mixedBy lines m)"
proof -
  define k where "k = (LEAST k. mixedBy lines k)"
  from assms have "mixedBy lines k" unfolding k_def by (rule LeastI)
  moreover from assms have "k \<le> j" unfolding k_def by (rule Least_le)
  moreover have "\<forall>m<k. \<not> mixedBy lines m"
    unfolding k_def by (auto dest: not_less_Least)
  ultimately show ?thesis by blast
qed

lemma mixedBy_later:
  assumes "i < j" and "j < length lines" and "TAB \<in> set (leadingWhitespace (lines ! i))"
    and "indentStartsWithSpace (lines ! j)"
  shows "mixedBy lines j"
proof -
  from assms(4) have "SPC \<in> set (leadingWhitespace (lines ! j))"
    by (auto simp: indentStartsWithSpace_def prefix_def)
  moreover from assms(1,2) have "take (Suc j) lines ! i = lines ! i"
    and "take (Suc j) lines ! j = lines ! j"
    and "i < length (take (Suc j) lines)" and "j < length (take (Suc j) lines)"
    by simp_all
  then have "lines ! i \<in> set (take (Suc j) lines)" and "lines ! j \<in> set (take (Suc j) lines)"
    by (metis nth_mem)+
  ultimately show ?thesis using assms(3)
    by (auto simp: mixedBy_def indentSoFar_def)
qed

lemma ruleCheckTabsVsSpacesOnly_first_mixed:
  assumes "k < length (fileAsLines args)" and "mixedBy (fileAsLines args) k"
    and "\<forall>m<k. \<not> mixedBy (fileAsLines args) m"
  shows "ruleCheckTabsVsSpacesOnly args
           = Inr (fileAndLineError (filePath args) (int k + 1) (mixMessage (fileAsLines args) k))"
  using tabsVsSpacesLoop_first_mixed [of "[]" k "fileAsLines args" "filePath args" 0] assms
  by (simp add: ruleCheckTabsVsSpacesOnly_def mixedBy_def mixMessage_def)

text \<open>
  C5, as stated: whenever some line's leading whitespace contains a tab and a strictly later
  line's leading whitespace starts with a space, the predicate reports that later line. In a
  file of three lines, the first starting with a space, the second with a tab and the third
  with a space, the only line with a tab is line 2 and the only later line is line 3, which
  starts with a space; the line reported is line 2. In a file of two lines, the first starting
  with a tab followed by a space and the second with a space, the only such pair is line 1 and
  line 2; the line reported is line 1.
\<close>

theorem tabsVsSpacesOnly_counterexample:
  "TAB \<notin> set (leadingWhitespace ([[SPC, CHR ''a''], [TAB, CHR ''b''], [SPC, CHR ''c'']] ! 0))
   \<and> TAB \<in> set (leadingWhitespace ([[SPC, CHR ''a''], [TAB, CHR ''b''], [SPC, CHR ''c'']] ! 1))
   \<and> TAB \<notin> set (leadingWhitespace ([[SPC, CHR ''a''], [TAB, CHR ''b''], [SPC, CHR ''c'']] ! 2))
   \<and> indentStartsWithSpace ([[SPC, CHR ''a''], [TAB, CHR ''b''], [SPC, CHR ''c'']] ! 2)
   \<and> (1::nat) < 2 \<and> 2 < length [[SPC, CHR ''a''], [TAB, CHR ''b''], [SPC, CHR ''c'']]
   \<and> ruleCheckTabsVsSpacesOnly
        \<lparr>filePath = ''f'',
         fileAsString = [SPC, CHR ''a'', LF, TAB, CHR ''b'', LF, SPC, CHR ''c''],
         fileAsLines = [[SPC, CHR ''a''], [TAB, CHR ''b''], [SPC, CHR ''c'']]\<rparr>
       = Inr ''f:2: Found first tab indent with prior space indents''
   \<and> fileAndLineError ''f'' 3 spaceAfterTab \<noteq> ''f:2: Found first tab indent with prior space indents''
   \<and> fileAndLineError ''f'' 3 tabAfterSpace \<noteq> ''f:2: Found first tab indent with prior space indents''
   \<and> TAB \<in> set (leadingWhitespace ([[TAB, SPC, CHR ''a''], [SPC, CHR ''b'']] ! 0))
   \<and> TAB \<notin> set (leadingWhitespace ([[TAB, SPC, CHR ''a''], [SPC, CHR ''b'']] ! 1))
   \<and> indentStartsWithSpace ([[TAB, SPC, CHR ''a''], [SPC, CHR ''b'']] ! 1)
   \<and> (0::nat) < 1 \<and> 1 < length [[TAB, SPC, CHR ''a''], [SPC, CHR ''b'']]
   \<and> ruleCheckTabsVsSpacesOnly
        \<lparr>filePath = ''f'',
         fileAsString = [TAB, SPC, CHR ''a'', LF, SPC, CHR ''b''],
         fileAsLines = [[TAB, SPC, CHR ''a''], [SPC, CHR ''b'']]\<rparr>
       = Inr ''f:1: Found first space indent with prior tab indents''
   \<and> fileAndLineError ''f'' 2 spaceAfterTab \<noteq> ''f:1: Found first space indent with prior tab indents''
   \<and> fileAndLineError ''f'' 2 tabAfterSpace \<noteq> ''f:1: Found first space indent with prior tab indents''"
  by (simp add: leadingWhitespace_def indentStartsWithSpace_def ruleCheckTabsVsSpacesOnly_def
        byte_def fileAndLineError_def strconv_Itoa_def decimal.simps digit_def)

text \<open>
  C5, amended. A file whose every line has only tabs in its leading whitespace passes, and so
  does any file whose leading whitespace, all lines together, does not hold both a tab and a
  space. Otherwise the predicate fails and reports the first line by which the leading
  whitespace of the lines up to and including it holds both a tab and a space, with the
  space-after-tab message when the first character of that whitespace is a tab and the
  tab-after-space message otherwise. When some line's leading whitespace contains a tab and a
  strictly later line's leading whitespace starts with a space, that first line exists and is
  no later than the later line; it is the later line, with the space-after-tab message, when
  every line before it has only tabs in its leading whitespace.
\<close>

theorem tabsVsSpacesOnly_first_mixed_line:
  "((\<forall>l\<in>set (fileAsLines args). set (leadingWhitespace l) \<subseteq> {TAB})
      \<longrightarrow> ruleCheckTabsVsSpacesOnly args = Inr [])
   \<and> (\<not> (SPC \<in> set (concat (map leadingWhitespace (fileAsLines args)))
          \<and> TAB \<in> set (concat (map leadingWhitespace (fileAsLines args))))
      \<longrightarrow> ruleCheckTabsVsSpacesOnly args = Inr [])
   \<and> (k < length (fileAsLines args) \<and> mixedBy (fileAsLines args) k
        \<and> (\<forall>m<k. \<not> mixedBy (fileAsLines args) m)
      \<longrightarrow> ruleCheckTabsVsSpacesOnly args
            = Inr (fileAndLineError (filePath args) (int k + 1) (mixMessage (fileAsLines args) k)))
   \<and> (i < j \<and> j < length (fileAsLines args)
        \<and> TAB \<in> set (leadingWhitespace (fileAsLines args ! i))
        \<and> indentStartsWithSpace (fileAsLines args ! j)
      \<longrightarrow> (\<exists>n\<le>j. mixedBy (fileAsLines args) n \<and> (\<forall>m<n. \<not> mixedBy (fileAsLines args) m)
             \<and> ruleCheckTabsVsSpacesOnly args
                 = Inr (fileAndLineError (filePath args) (int n + 1)
                          (mixMessage (fileAsLines args) n)))
          \<and> ((\<forall>m<j. set (leadingWhitespace (fileAsLines args ! m)) \<subseteq> {TAB})
               \<longrightarrow> ruleCheckTabsVsSpacesOnly args
                     = Inr (fileAndLineError (filePath args) (int j + 1) spaceAfterTab)))"
proof (intro conjI impI)
  assume "\<forall>l\<in>set (fileAsLines args). set (leadingWhitespace l) \<subseteq> {TAB}"
  then show "ruleCheckTabsVsSpacesOnly args = Inr []"
    by (simp add: ruleCheckTabsVsSpacesOnly_def tabsVsSpacesLoop_tabs_only tabs_only_iff)
next
  assume "\<not> (SPC \<in> set (concat (map leadingWhitespace (fileAsLines args)))
          \<and> TAB \<in> set (concat (map leadingWhitespace (fileAsLines args))))"
  then show "ruleCheckTabsVsSpacesOnly args = Inr []"
    using tabsVsSpacesLoop_never_mixed [of "[]" "fileAsLines args" "filePath args" 0]
    by (auto simp: ruleCheckTabsVsSpacesOnly_def)
next
  assume "k < length (fileAsLines args) \<and> mixedBy (fileAsLines args) k
        \<and> (\<forall>m<k. \<not> mixedBy (fileAsLines args) m)"
  then show "ruleCheckTabsVsSpacesOnly args
            = Inr (fileAndLineError (filePath args) (int k + 1) (mixMessage (fileAsLines args) k))"
    by (simp add: ruleCheckTabsVsSpacesOnly_first_mixed)
next
  assume h: "i < j \<and> j < length (fileAsLines args)
        \<and> TAB \<in> set (leadingWhitespace (fileAsLines args ! i))
        \<and> indentStartsWithSpace (fileAsLines args ! j)"
  then have "mixedBy (fileAsLines args) j"
    using mixedBy_later [of i j "fileAsLines args"] by blast
  from first_mixed_exists [OF this] obtain n where n: "n \<le> j" "mixedBy (fileAsLines args) n"
    "\<forall>m<n. \<not> mixedBy (fileAsLines args) m"
    by blast
  with h have "n < length (fileAsLines args)" by simp
  from ruleCheckTabsVsSpacesOnly_first_mixed [OF this n(2,3)] n
  show "\<exists>n\<le>j. mixedBy (fileAsLines args) n \<and> (\<forall>m<n. \<not> mixedBy (fileAsLines args) m)
             \<and> ruleCheckTabsVsSpacesOnly args
                 = Inr (fileAndLineError (filePath args) (int n + 1)
                          (mixMessage (fileAsLines args) n))"
    by blast
  assume "\<forall>m<j. set (leadingWhitespace (fileAsLines args ! m)) \<subseteq> {TAB}"
  with h show "ruleCheckTabsVsSpacesOnly args
                     = Inr (fileAndLineError (filePath args) (int j + 1) spaceAfterTab)"
    using tabsVsSpacesLoop_exact [of i j "fileAsLines args" "filePath args" 0 False]
    by (simp add: ruleCheckTabsVsSpacesOnly_def tabs_only_iff)
qed

theorem tabsVsSpacesOnly_first_mixed_line_witness:
  "set (leadingWhitespace [TAB, CHR ''a'']) \<subseteq> {TAB}
   \<and> set (leadingWhitespace ''b'') \<subseteq> {TAB}
   \<and> ruleCheckTabsVsSpacesOnly
        \<lparr>filePath = ''f'', fileAsString = [TAB, CHR ''a'', LF, CHR ''b''],
         fileAsLines = [[TAB, CHR ''a''], ''b'']\<rparr> = Inr []
   \<and> (1::nat) < 2 \<and> 2 < length [[SPC, CHR ''a''], [TAB, CHR ''b''], [SPC, CHR ''c'']]
   \<and> TAB \<in> set (leadingWhitespace ([[SPC, CHR ''a''], [TAB, CHR ''b''], [SPC, CHR ''c'']] ! 1))
   \<and> indentStartsWithSpace ([[SPC, CHR ''a''], [TAB, CHR ''b''], [SPC, CHR ''c'']] ! 2)
   \<and> mixedBy [[SPC, CHR ''a''], [TAB, CHR ''b''], [SPC, CHR ''c'']] 1
   \<and> \<not> mixedBy [[SPC, CHR ''a''], [TAB, CHR ''b''], [SPC, CHR ''c'']] 0
   \<and> ruleCheckTabsVsSpacesOnly
        \<lparr>filePath = ''f'',
         fileAsString = [SPC, CHR ''a'', LF, TAB, CHR ''b'', LF, SPC, CHR ''c''],
         fileAsLines = [[SPC, CHR ''a''], [TAB, CHR ''b''], [SPC, CHR ''c'']]\<rparr>
       = Inr ''f:2: Found first tab indent with prior space indents''
   \<and> (0::nat) < 2 \<and> 2 < length [[TAB, CHR ''a''], [TAB, TAB, CHR ''b''], [SPC, CHR ''c'']]
   \<and> TAB \<in> set (leadingWhitespace
                  ([[TAB, CHR ''a''], [TAB, TAB, CHR ''b''], [SPC, CHR ''c'']] ! 0))
   \<and> indentStartsWithSpace ([[TAB, CHR ''a''], [TAB, TAB, CHR ''b''], [SPC, CHR ''c'']] ! 2)
   \<and> set (leadingWhitespace
             ([[TAB, CHR ''a''], [TAB, TAB, CHR ''b''], [SPC, CHR ''c'']] ! 0)) \<subseteq> {TAB}
   \<and> set (leadingWhitespace
             ([[TAB, CHR ''a''], [TAB, TAB, CHR ''b''], [SPC, CHR ''c'']] ! 1)) \<subseteq> {TAB}
   \<and> ruleCheckTabsVsSpacesOnly
        \<lparr>filePath = ''f'',
         fileAsString = [TAB, CHR ''a'', LF, TAB, TAB, CHR ''b'', LF, SPC, CHR ''c''],
         fileAsLines = [[TAB, CHR ''a''], [TAB, TAB, CHR ''b''], [SPC, CHR ''c'']]\<rparr>
       = Inr ''f:3: Found first space indent with prior tab indents''"
proof -
  define A where
    "A = \<lparr>filePath = ''f'', fileAsString = [TAB, CHR ''a'', LF, CHR ''b''],
          fileAsLines = [[TAB, CHR ''a''], ''b'']\<rparr>"
  define B where
    "B = \<lparr>filePath = ''f'',
          fileAsString = [SPC, CHR ''a'', LF, TAB, CHR ''b'', LF, SPC, CHR ''c''],
          fileAsLines = [[SPC, CHR ''a''], [TAB, CHR ''b''], [SPC, CHR ''c'']]\<rparr>"
  define C where
    "C = \<lparr>filePath = ''f'',
          fileAsString = [TAB, CHR ''a'', LF, TAB, TAB, CHR ''b'', LF, SPC, CHR ''c''],
          fileAsLines = [[TAB, CHR ''a''], [TAB, TAB, CHR ''b''], [SPC, CHR ''c'']]\<rparr>"
  have a: "\<forall>l\<in>set (fileAsLines A). set (leadingWhitespace l) \<subseteq> {TAB}"
    by (simp add: A_def leadingWhitespace_def)
  have a': "\<not> (SPC \<in> set (concat (map leadingWhitespace (fileAsLines A)))
              \<and> TAB \<in> set (concat (map leadingWhitespace (fileAsLines A))))"
    by (simp add: A_def leadingWhitespace_def)
  have b: "1 < (2::nat) \<and> 2 < length (fileAsLines B)
           \<and> TAB \<in> set (leadingWhitespace (fileAsLines B ! 1))
           \<and> indentStartsWithSpace (fileAsLines B ! 2)"
    by (simp add: B_def leadingWhitespace_def indentStartsWithSpace_def)
  have b': "1 < length (fileAsLines B) \<and> mixedBy (fileAsLines B) 1
            \<and> (\<forall>m<1. \<not> mixedBy (fileAsLines B) m)"
    by (simp add: B_def mixedBy_def indentSoFar_def leadingWhitespace_def)
  have c: "0 < (2::nat) \<and> 2 < length (fileAsLines C)
           \<and> TAB \<in> set (leadingWhitespace (fileAsLines C ! 0))
           \<and> indentStartsWithSpace (fileAsLines C ! 2)"
    by (simp add: C_def leadingWhitespace_def indentStartsWithSpace_def)
  have c': "\<forall>m<2. set (leadingWhitespace (fileAsLines C ! m)) \<subseteq> {TAB}"
    by (simp add: C_def leadingWhitespace_def less_Suc_eq numeral_2_eq_2)
  from tabsVsSpacesOnly_first_mixed_line [of A] a
  have passes: "ruleCheckTabsVsSpacesOnly A = Inr []"
    by blast
  from tabsVsSpacesOnly_first_mixed_line [of A] a'
  have passes': "ruleCheckTabsVsSpacesOnly A = Inr []"
    by blast
  from tabsVsSpacesOnly_first_mixed_line [of B 1] b'
  have mixes: "ruleCheckTabsVsSpacesOnly B
                 = Inr (fileAndLineError (filePath B) (int 1 + 1) (mixMessage (fileAsLines B) 1))"
    by blast
  from tabsVsSpacesOnly_first_mixed_line [of B _ 1 2] b
  have "\<exists>n\<le>2. mixedBy (fileAsLines B) n \<and> (\<forall>m<n. \<not> mixedBy (fileAsLines B) m)
          \<and> ruleCheckTabsVsSpacesOnly B
              = Inr (fileAndLineError (filePath B) (int n + 1) (mixMessage (fileAsLines B) n))"
    by blast
  from tabsVsSpacesOnly_first_mixed_line [of C _ 0 2] c c'
  have fails: "ruleCheckTabsVsSpacesOnly C
                 = Inr (fileAndLineError (filePath C) (int 2 + 1) spaceAfterTab)"
    by blast
  from a b b' c c' passes mixes fails show ?thesis
    by (simp add: A_def B_def C_def fileAndLineError_def strconv_Itoa_def decimal.simps digit_def
          mixMessage_def indentSoFar_def leadingWhitespace_def less_Suc_eq numeral_2_eq_2)
qed

section \<open>BadClassName\<close>

lemma badClassNameLoop_first:
  "badClassNameLoop path base n ls =
     (if \<forall>l\<in>set ls. \<not> classNameMismatch base l then []
      else fileAndLineError path (int n + int (firstMismatch base ls) + 1)
             (classNameMessage base (ls ! firstMismatch base ls)))"
proof (induction ls arbitrary: n)
  case Nil
  show ?case by simp
next
  case (Cons l ls)
  show ?case
  proof (cases "classNameMismatch base l")
    case True
    then show ?thesis
      by (auto simp: classNameMismatch_def classNameMessage_def firstMismatch_def
               split: option.splits)
  next
    case False
    then have "badClassNameLoop path base n (l # ls) = badClassNameLoop path base (Suc n) ls"
      by (auto simp: classNameMismatch_def split: option.splits)
    with False Cons.IH [of "Suc n"] show ?thesis
      by (simp add: firstMismatch_def)
  qed
qed

text \<open>
  C3, as stated: every class-declaration line whose name disagrees with the file's base name
  is reported, one diagnostic per line. In \<open>/src/Widget.cs\<close> with the two lines
  \<open>class A\<close> and \<open>public class B\<close> both lines disagree, and the result is the single
  diagnostic for line 1.
\<close>

theorem badClassName_every_line_counterexample:
  "classNameMismatch ''Widget'' ''class A''
   \<and> classNameMismatch ''Widget'' ''  public class B''
   \<and> ruleCheckBadClassName
        \<lparr>filePath = ''/src/Widget.cs'',
         fileAsString = ''class A'' @ [LF] @ ''  public class B'',
         fileAsLines = [''class A'', ''  public class B'']\<rparr>
       = Inr ''/src/Widget.cs:1: Class name A should be Widget instead''"
  by (simp add: classNameMismatch_def classNameOf_def strings_Trim_def strings_HasPrefix_def
        ruleCheckBadClassName_def filepath_Base_def fileAndLineError_def strconv_Itoa_def
        decimal.simps digit_def)

text \<open>
  C3, amended. For a file whose base name is \<open>stem.cs\<close>, the predicate passes when no
  class-declaration line disagrees with \<open>stem\<close>, and otherwise reports exactly one line: the
  first class-declaration line whose name disagrees.
\<close>

theorem badClassName_first_only:
  assumes "filepath_Base (filePath args) = stem @ ''.cs''"
  shows "ruleCheckBadClassName args =
     Inr (if \<forall>l\<in>set (fileAsLines args). \<not> classNameMismatch stem l then []
          else fileAndLineError (filePath args) (int (firstMismatch stem (fileAsLines args)) + 1)
                 (classNameMessage stem (fileAsLines args ! firstMismatch stem (fileAsLines args))))"
  using assms by (simp add: ruleCheckBadClassName_def badClassNameLoop_first)

theorem badClassName_first_only_witness:
  "filepath_Base ''/src/Widget.cs'' = ''Widget'' @ ''.cs''
   \<and> \<not> classNameMismatch ''Widget'' ''class Widget''
   \<and> classNameMismatch ''Widget'' ''class A''
   \<and> classNameMismatch ''Widget'' ''  public class B''
   \<and> ruleCheckBadClassName
        \<lparr>filePath = ''/src/Widget.cs'',
         fileAsString = ''class Widget'' @ [LF] @ ''class A'' @ [LF] @ ''  public class B'',
         fileAsLines = [''class Widget'', ''class A'', ''  public class B'']\<rparr>
       = Inr ''/src/Widget.cs:2: Class name A should be Widget instead''"
proof -
  have base: "filepath_Base ''/src/Widget.cs'' = ''Widget'' @ ''.cs''"
    by (simp add: filepath_Base_def)
  define A where
    "A = \<lparr>filePath = ''/src/Widget.cs'',
          fileAsString = ''class Widget'' @ [LF] @ ''class A'' @ [LF] @ ''  public class B'',
          fileAsLines = [''class Widget'', ''class A'', ''  public class B'']\<rparr>"
  have "filepath_Base (filePath A) = ''Widget'' @ ''.cs''"
    using base by (simp add: A_def)
  from badClassName_first_only [OF this] base show ?thesis
    by (simp add: A_def classNameMismatch_def classNameOf_def strings_Trim_def
          strings_HasPrefix_def firstMismatch_def classNameMessage_def fileAndLineError_def
          strconv_Itoa_def decimal.simps digit_def)
qed

section \<open>BadNameSpace\<close>

lemma HasSuffix_suffix: "strings_HasSuffix s x \<longleftrightarrow> suffix x s"
  unfolding strings_HasSuffix_def
  by (metis append_eq_conv_conj append_take_drop_id diff_diff_cancel length_append length_drop suffix_def suffix_length_le add_diff_cancel_right')

lemma fileAndLineError_nonempty: "fileAndLineError path n msg \<noteq> []"
  by (simp add: fileAndLineError_def)

lemma badNameSpaceLoop_first:
  assumes "getFilePathAsNameSpace path = Inr D" and "pns = [] \<or> pns = D"
  shows "badNameSpaceLoop path n ls pns =
     Inr (if \<forall>l\<in>set ls. \<not> namespaceMismatch D l then []
          else fileAndLineError path (int n + int (firstNamespaceMismatch D ls) + 1)
                 (namespaceMessage D (ls ! firstNamespaceMismatch D ls)))"
  using assms(2)
proof (induction ls arbitrary: n pns)
  case Nil
  show ?case by simp
next
  case (Cons l ls)
  from Cons.prems assms(1)
  have pns: "(if pns = [] then getFilePathAsNameSpace path else Inr pns) = Inr D"
    by auto
  show ?case
  proof (cases "declaredNamespace l")
    case None
    then have "badNameSpaceLoop path n (l # ls) pns = badNameSpaceLoop path (Suc n) ls pns"
      by (simp add: declaredNamespace_def Let_def HasPrefix_prefix split: if_splits)
    with None Cons.IH [OF Cons.prems, of "Suc n"] show ?thesis
      by (simp add: namespaceMismatch_def firstNamespaceMismatch_def)
  next
    case (Some N)
    then have line: "prefix ''namespace '' (strings_Trim l [SPC, TAB])"
      and N: "N = drop (length ''namespace '') (strings_Trim l [SPC, TAB])"
      by (auto simp: declaredNamespace_def Let_def split: if_splits)
    show ?thesis
    proof (cases "suffix (''.'' @ N) D")
      case True
      with line N pns
      have "badNameSpaceLoop path n (l # ls) pns = badNameSpaceLoop path (Suc n) ls D"
        by (simp add: Let_def HasPrefix_prefix HasSuffix_suffix)
      with True Some Cons.IH [of D "Suc n"] show ?thesis
        by (simp add: namespaceMismatch_def firstNamespaceMismatch_def)
    next
      case False
      with line N pns Some show ?thesis
        by (simp add: Let_def HasPrefix_prefix HasSuffix_suffix namespaceMismatch_def
              firstNamespaceMismatch_def namespaceMessage_def)
    qed
  qed
qed

text \<open>
  C10. For a file whose path-derived namespace is \<open>D\<close>, the check passes exactly when every
  declaration line \<open>namespace N\<close> has \<open>.N\<close> as a suffix of \<open>D\<close>; so a line declaring \<open>D\<close>
  itself always fails. When it fails, the first mismatching line is reported.
\<close>

theorem badNameSpace_passes_iff_dot_suffix:
  assumes "getFilePathAsNameSpace (filePath args) = Inr D"
  shows "(ruleCheckBadNameSpace args = Inr [] \<longleftrightarrow>
            (\<forall>l\<in>set (fileAsLines args). \<forall>N. declaredNamespace l = Some N \<longrightarrow> suffix (''.'' @ N) D))
       \<and> ((\<exists>l\<in>set (fileAsLines args). declaredNamespace l = Some D)
            \<longrightarrow> ruleCheckBadNameSpace args \<noteq> Inr [])
       \<and> ruleCheckBadNameSpace args =
           Inr (if \<forall>l\<in>set (fileAsLines args). \<not> namespaceMismatch D l then []
                else fileAndLineError (filePath args)
                       (int (firstNamespaceMismatch D (fileAsLines args)) + 1)
                       (namespaceMessage D
                          (fileAsLines args ! firstNamespaceMismatch D (fileAsLines args))))"
proof -
  have res: "ruleCheckBadNameSpace args =
           Inr (if \<forall>l\<in>set (fileAsLines args). \<not> namespaceMismatch D l then []
                else fileAndLineError (filePath args)
                       (int (firstNamespaceMismatch D (fileAsLines args)) + 1)
                       (namespaceMessage D
                          (fileAsLines args ! firstNamespaceMismatch D (fileAsLines args))))"
    using badNameSpaceLoop_first [OF assms, of "[]" 0 "fileAsLines args"]
    by (simp add: ruleCheckBadNameSpace_def)
  have iff: "ruleCheckBadNameSpace args = Inr [] \<longleftrightarrow>
               (\<forall>l\<in>set (fileAsLines args). \<not> namespaceMismatch D l)"
    by (simp add: res fileAndLineError_nonempty)
  have "\<not> suffix (''.'' @ D) D"
    by (auto dest: suffix_length_le)
  then have "namespaceMismatch D l" if "declaredNamespace l = Some D" for l
    using that by (simp add: namespaceMismatch_def)
  with iff res show ?thesis
    by (auto simp: namespaceMismatch_def split: option.splits)
qed

theorem badNameSpace_passes_iff_dot_suffix_witness:
  "getFilePathAsNameSpace ''/src/foo/bar/Baz.cs'' = Inr ''src.foo.bar''
   \<and> declaredNamespace ''namespace foo.bar'' = Some ''foo.bar''
   \<and> ruleCheckBadNameSpace
        \<lparr>filePath = ''/src/foo/bar/Baz.cs'', fileAsString = ''namespace foo.bar'',
         fileAsLines = [''namespace foo.bar'']\<rparr> = Inr []
   \<and> declaredNamespace ''namespace src.foo.bar'' = Some ''src.foo.bar''
   \<and> ruleCheckBadNameSpace
        \<lparr>filePath = ''/src/foo/bar/Baz.cs'', fileAsString = ''namespace src.foo.bar'',
         fileAsLines = [''namespace src.foo.bar'']\<rparr>
       = Inr ''/src/foo/bar/Baz.cs:1: Namespace src.foo.bar is not a suffix of src.foo.bar''"
proof -
  have d: "getFilePathAsNameSpace ''/src/foo/bar/Baz.cs'' = Inr ''src.foo.bar''"
    by (simp add: getFilePathAsNameSpace_def strings_HasPrefix_def Let_def)
  have n1: "declaredNamespace ''namespace foo.bar'' = Some ''foo.bar''"
    and n2: "declaredNamespace ''namespace src.foo.bar'' = Some ''src.foo.bar''"
    by (simp_all add: declaredNamespace_def strings_Trim_def)
  define A where
    "A = \<lparr>filePath = ''/src/foo/bar/Baz.cs'', fileAsString = ''namespace foo.bar'',
          fileAsLines = [''namespace foo.bar'']\<rparr>"
  define B where
    "B = \<lparr>filePath = ''/src/foo/bar/Baz.cs'', fileAsString = ''namespace src.foo.bar'',
          fileAsLines = [''namespace src.foo.bar'']\<rparr>"
  have dA: "getFilePathAsNameSpace (filePath A) = Inr ''src.foo.bar''"
    and dB: "getFilePathAsNameSpace (filePath B) = Inr ''src.foo.bar''"
    using d by (simp_all add: A_def B_def)
  have sfx: "suffix ''.foo.bar'' ''src.foo.bar''"
    by (simp add: suffix_to_prefix)
  from badNameSpace_passes_iff_dot_suffix [OF dA] n1 sfx
  have passes: "ruleCheckBadNameSpace A = Inr []"
    by (simp add: A_def)
  have "\<exists>l\<in>set (fileAsLines B). declaredNamespace l = Some ''src.foo.bar''"
    using n2 by (simp add: B_def)
  with badNameSpace_passes_iff_dot_suffix [OF dB]
  have "ruleCheckBadNameSpace B \<noteq> Inr []"
    and "ruleCheckBadNameSpace B =
           Inr (if \<forall>l\<in>set (fileAsLines B). \<not> namespaceMismatch ''src.foo.bar'' l then []
                else fileAndLineError (filePath B)
                       (int (firstNamespaceMismatch ''src.foo.bar'' (fileAsLines B)) + 1)
                       (namespaceMessage ''src.foo.bar''
                          (fileAsLines B ! firstNamespaceMismatch ''src.foo.bar'' (fileAsLines B))))"
    by blast+
  then have fails: "ruleCheckBadNameSpace B
      = Inr (fileAndLineError (filePath B)
               (int (firstNamespaceMismatch ''src.foo.bar'' (fileAsLines B)) + 1)
               (namespaceMessage ''src.foo.bar''
                  (fileAsLines B ! firstNamespaceMismatch ''src.foo.bar'' (fileAsLines B))))"
    by (simp split: if_splits)
  have m: "namespaceMismatch ''src.foo.bar'' ''namespace src.foo.bar''"
    using n2 by (simp add: namespaceMismatch_def suffix_to_prefix)
  from d n1 n2 passes fails m show ?thesis
    by (simp add: A_def B_def firstNamespaceMismatch_def namespaceMessage_def
          fileAndLineError_def strconv_Itoa_def decimal.simps digit_def)
qed


section \<open>Dispatch and lazy loading\<close>

lemma loadsOf_append: "loadsOf (xs @ ys) = loadsOf xs @ loadsOf ys"
  by (induction xs rule: loadsOf.induct) simp_all

lemma checksOf_append: "checksOf (xs @ ys) = checksOf xs @ checksOf ys"
  by (induction xs rule: checksOf.induct) simp_all

lemma stringArrayContains_set: "stringArrayContains array s \<longleftrightarrow> s \<in> set array"
  by (induction array) auto

lemma rulesLoop_skip:
  "\<not> ruleApplies r ext isBinary \<Longrightarrow>
     rulesLoop w ext path isBinary (r # rest) st = rulesLoop w ext path isBinary rest st"
  by (cases isBinary) (auto simp: ruleApplies_def stringArrayContains_set)

lemma rulesLoop_apply:
  assumes "ruleApplies r ext isBinary"
  shows "rulesLoop w ext path isBinary (r # rest) st =
       (case lazyLoad w path st of
          Inl e \<Rightarrow> ([LoadFile path], Some e)
        | Inr (loads, st') \<Rightarrow>
            let args = \<lparr>filePath = path, fileAsString = loadedString st',
                        fileAsLines = loadedLines st'\<rparr>
            in (case checkFunc r args of
                  Inl e \<Rightarrow> (loads @ [CheckCalled r args], Some e)
                | Inr msg \<Rightarrow>
                    let (later, res) = rulesLoop w ext path isBinary rest st'
                    in (loads @ [CheckCalled r args] @ (if msg \<noteq> [] then [Println msg] else [])
                        @ later, res)))"
proof -
  from assms
  have a: "\<not> (length (fileExtensions r) \<noteq> 0 \<and> \<not> stringArrayContains (fileExtensions r) ext)"
    and b: "\<not> (isBinary \<and> (fileTypeFlags r AND flagBinaryFile) = 0)"
    and c: "\<not> (\<not> isBinary \<and> (fileTypeFlags r AND flagTextFile) = 0)"
    by (auto simp: ruleApplies_def stringArrayContains_set split: if_splits)
  show ?thesis
    by (subst rulesLoop.simps(2)) (simp only: a b c if_False)
qed

declare rulesLoop.simps(2) [simp del]

lemma lazyLoad_Inr:
  assumes "lazyLoad w path st = Inr (loads, st')"
  shows "fileLoaded st'" and "loadsOf loads = (if fileLoaded st then [] else [path])"
    and "checksOf loads = []"
  using assms by (auto simp: lazyLoad_def split: if_splits sum.splits)

text \<open>The events of one applicable rule, followed by those of the rules after it.\<close>

lemma rulesLoop_apply_events:
  assumes "ruleApplies x ext isBinary"
  shows "(\<exists>e. lazyLoad w path st = Inl e
              \<and> fst (rulesLoop w ext path isBinary (x # rest) st) = [LoadFile path]
              \<and> \<not> fileLoaded st)
         \<or> (\<exists>loads st' args tail.
               lazyLoad w path st = Inr (loads, st')
               \<and> filePath args = path
               \<and> fst (rulesLoop w ext path isBinary (x # rest) st)
                   = loads @ [CheckCalled x args] @ tail
               \<and> (tail = [] \<or> (\<exists>pr. loadsOf pr = [] \<and> checksOf pr = []
                      \<and> tail = pr @ fst (rulesLoop w ext path isBinary rest st'))))"
proof (cases "lazyLoad w path st")
  case (Inl e)
  then have "\<not> fileLoaded st" by (auto simp: lazyLoad_def split: if_splits)
  with Inl show ?thesis by (simp add: rulesLoop_apply [OF assms])
next
  case (Inr p)
  obtain loads st' where p: "p = (loads, st')" by (cases p)
  define args where
    "args = \<lparr>filePath = path, fileAsString = loadedString st', fileAsLines = loadedLines st'\<rparr>"
  have fp: "filePath args = path" by (simp add: args_def)
  show ?thesis
  proof (cases "checkFunc x args")
    case (Inl e)
    with Inr p have "fst (rulesLoop w ext path isBinary (x # rest) st)
                       = loads @ [CheckCalled x args] @ []"
      by (simp add: rulesLoop_apply [OF assms] args_def Let_def)
    with Inr p fp show ?thesis by blast
  next
    case (Inr msg)
    define pr where "pr = (if msg \<noteq> [] then [Println msg] else [])"
    have pr: "loadsOf pr = []" "checksOf pr = []" by (simp_all add: pr_def)
    from Inr \<open>lazyLoad w path st = Inr p\<close> p
    have "fst (rulesLoop w ext path isBinary (x # rest) st)
            = loads @ [CheckCalled x args] @ (pr @ fst (rulesLoop w ext path isBinary rest st'))"
      by (simp add: rulesLoop_apply [OF assms] args_def Let_def pr_def split: prod.splits)
    with \<open>lazyLoad w path st = Inr p\<close> p fp pr show ?thesis by blast
  qed
qed

lemma rulesLoop_checks:
  "(r, a) \<in> set (checksOf (fst (rulesLoop w ext path isBinary rules st))) \<Longrightarrow>
     r \<in> set rules \<and> ruleApplies r ext isBinary \<and> filePath a = path"
proof (induction rules arbitrary: st)
  case Nil
  then show ?case by simp
next
  case (Cons x rest)
  show ?case
  proof (cases "ruleApplies x ext isBinary")
    case False
    with Cons show ?thesis by (auto simp: rulesLoop_skip)
  next
    case True
    from rulesLoop_apply_events [OF True, of w path st rest]
    consider (dead) "fst (rulesLoop w ext path isBinary (x # rest) st) = [LoadFile path]"
      | (alive) loads st' args tail where "lazyLoad w path st = Inr (loads, st')"
          and "filePath args = path"
          and "fst (rulesLoop w ext path isBinary (x # rest) st)
                 = loads @ [CheckCalled x args] @ tail"
          and "tail = [] \<or> (\<exists>pr. loadsOf pr = [] \<and> checksOf pr = []
                      \<and> tail = pr @ fst (rulesLoop w ext path isBinary rest st'))"
      by blast
    then show ?thesis
    proof cases
      case dead
      with Cons.prems show ?thesis by simp
    next
      case alive
      from Cons.prems alive(3) lazyLoad_Inr(3) [OF alive(1)]
      have "(r, a) = (x, args) \<or> (r, a) \<in> set (checksOf tail)"
        by (simp add: checksOf_append)
      then show ?thesis
      proof
        assume "(r, a) = (x, args)"
        with True alive(2) show ?thesis by simp
      next
        assume m: "(r, a) \<in> set (checksOf tail)"
        with alive(4) obtain pr where "checksOf pr = []"
          and "tail = pr @ fst (rulesLoop w ext path isBinary rest st')"
          by auto
        with m have "(r, a) \<in> set (checksOf (fst (rulesLoop w ext path isBinary rest st')))"
          by (simp add: checksOf_append)
        from Cons.IH [OF this] show ?thesis by simp
      qed
    qed
  qed
qed

lemma rulesLoop_loads:
  "loadsOf (fst (rulesLoop w ext path isBinary rules st)) = []
   \<or> (\<not> fileLoaded st \<and> loadsOf (fst (rulesLoop w ext path isBinary rules st)) = [path])"
proof (induction rules arbitrary: st)
  case Nil
  then show ?case by simp
next
  case (Cons x rest)
  show ?case
  proof (cases "ruleApplies x ext isBinary")
    case False
    with Cons show ?thesis by (simp add: rulesLoop_skip)
  next
    case True
    from rulesLoop_apply_events [OF True, of w path st rest]
    consider (dead) "fst (rulesLoop w ext path isBinary (x # rest) st) = [LoadFile path]"
        and "\<not> fileLoaded st"
      | (alive) loads st' args tail where "lazyLoad w path st = Inr (loads, st')"
          and "fst (rulesLoop w ext path isBinary (x # rest) st)
                 = loads @ [CheckCalled x args] @ tail"
          and "tail = [] \<or> (\<exists>pr. loadsOf pr = [] \<and> checksOf pr = []
                      \<and> tail = pr @ fst (rulesLoop w ext path isBinary rest st'))"
      by blast
    then show ?thesis
    proof cases
      case dead
      then show ?thesis by simp
    next
      case alive
      have "loadsOf tail = []"
      proof -
        from Cons.IH [of st'] lazyLoad_Inr(1) [OF alive(1)]
        have "loadsOf (fst (rulesLoop w ext path isBinary rest st')) = []" by auto
        with alive(3) show ?thesis by (auto simp: loadsOf_append)
      qed
      with alive(2) lazyLoad_Inr(2) [OF alive(1)] show ?thesis
        by (simp add: loadsOf_append)
    qed
  qed
qed

text \<open>
  A rule without any file-type flag (as the resolver returns for a config line with an
  argument) applies to no file.
\<close>

lemma rule_without_flags_never_applies: "fileTypeFlags r = 0 \<Longrightarrow> \<not> ruleApplies r ext b"
  by (simp add: ruleApplies_def)

lemma rulesLoop_no_loads:
  "\<forall>r\<in>set rules. \<not> ruleApplies r ext isBinary \<Longrightarrow>
     rulesLoop w ext path isBinary rules st = ([], None)"
  by (induction rules) (simp_all add: rulesLoop_skip)

text \<open>One file.\<close>

lemma runRulesOnFile_events:
  "(\<exists>e. classifiedBinary w file = Inl e
        \<and> fst (runRulesOnFile w rules file) = [ReadPrefix (getCanonicalPath w file)])
   \<or> (\<exists>b. classifiedBinary w file = Inr b
        \<and> fst (runRulesOnFile w rules file)
            = ReadPrefix (getCanonicalPath w file)
              # fst (rulesLoop w (filepath_Ext file) (getCanonicalPath w file) b rules
                      \<lparr>fileLoaded = False, loadedString = [], loadedLines = []\<rparr>))"
  by (cases "readFirstNChars w (getCanonicalPath w file) 50")
     (simp_all add: classifiedBinary_def runRulesOnFile_def Let_def split: prod.splits)

lemma runRulesOnFile_checks:
  assumes "(r, a) \<in> set (checksOf (fst (runRulesOnFile w rules file)))"
  shows "\<exists>b. classifiedBinary w file = Inr b \<and> r \<in> set rules
           \<and> ruleApplies r (filepath_Ext file) b \<and> filePath a = getCanonicalPath w file"
  using runRulesOnFile_events [of w "file" rules] assms
  by (auto dest: rulesLoop_checks)

lemma runRulesOnFile_loads:
  "loadsOf (fst (runRulesOnFile w rules file)) = []
   \<or> loadsOf (fst (runRulesOnFile w rules file)) = [getCanonicalPath w file]"
proof -
  from runRulesOnFile_events [of w "file" rules]
  consider "fst (runRulesOnFile w rules file) = [ReadPrefix (getCanonicalPath w file)]"
    | b where "fst (runRulesOnFile w rules file)
            = ReadPrefix (getCanonicalPath w file)
              # fst (rulesLoop w (filepath_Ext file) (getCanonicalPath w file) b rules
                      \<lparr>fileLoaded = False, loadedString = [], loadedLines = []\<rparr>)"
    by blast
  then show ?thesis
  proof cases
    case 1
    then show ?thesis by simp
  next
    case 2
    with rulesLoop_loads [of w "filepath_Ext file" "getCanonicalPath w file" b rules
                            "\<lparr>fileLoaded = False, loadedString = [], loadedLines = []\<rparr>"]
    show ?thesis by auto
  qed
qed

lemma runRulesOnFile_no_loads:
  assumes "\<forall>r\<in>set rules. \<forall>b. classifiedBinary w file = Inr b \<longrightarrow> \<not> ruleApplies r (filepath_Ext file) b"
  shows "loadsOf (fst (runRulesOnFile w rules file)) = []"
  using runRulesOnFile_events [of w "file" rules] assms
  by (auto simp: rulesLoop_no_loads)

text \<open>All files.\<close>

lemma runRulesOnFiles_events:
  "\<exists>k\<le>length files.
     fst (runRulesOnFiles w rules files) = concat (map (\<lambda>f. fst (runRulesOnFile w rules f)) (take k files))"
proof (induction files)
  case Nil
  show ?case by simp
next
  case (Cons f files)
  obtain evs res where r: "runRulesOnFile w rules f = (evs, res)" by (cases "runRulesOnFile w rules f")
  show ?case
  proof (cases res)
    case (Some e)
    with r have "fst (runRulesOnFiles w rules (f # files))
                   = concat (map (\<lambda>f. fst (runRulesOnFile w rules f)) (take 1 (f # files)))"
      by simp
    then show ?thesis by (intro exI [of _ 1]) simp
  next
    case None
    from Cons.IH obtain k where "k \<le> length files"
      and "fst (runRulesOnFiles w rules files)
             = concat (map (\<lambda>f. fst (runRulesOnFile w rules f)) (take k files))"
      by blast
    moreover obtain later res' where "runRulesOnFiles w rules files = (later, res')"
      by (cases "runRulesOnFiles w rules files")
    ultimately have "Suc k \<le> length (f # files) \<and> fst (runRulesOnFiles w rules (f # files))
        = concat (map (\<lambda>f. fst (runRulesOnFile w rules f)) (take (Suc k) (f # files)))"
      using r None by simp
    then show ?thesis by blast
  qed
qed

lemma checksOf_concat: "set (checksOf (concat xss)) = (\<Union>xs\<in>set xss. set (checksOf xs))"
  by (induction xss) (simp_all add: checksOf_append)

lemma loadsOf_concat: "loadsOf (concat xss) = concat (map loadsOf xss)"
  by (induction xss) (simp_all add: loadsOf_append)

lemma runRulesOnFiles_checks:
  assumes "(r, a) \<in> set (checksOf (fst (runRulesOnFiles w rules files)))"
  shows "\<exists>f\<in>set files. \<exists>b. classifiedBinary w f = Inr b \<and> r \<in> set rules
           \<and> ruleApplies r (filepath_Ext f) b \<and> filePath a = getCanonicalPath w f"
proof -
  from runRulesOnFiles_events [of files w rules] obtain k
    where "fst (runRulesOnFiles w rules files)
             = concat (map (\<lambda>f. fst (runRulesOnFile w rules f)) (take k files))"
    by blast
  with assms obtain f where "f \<in> set (take k files)"
    and "(r, a) \<in> set (checksOf (fst (runRulesOnFile w rules f)))"
    by (auto simp: checksOf_concat)
  then have "f \<in> set files"
    and "\<exists>b. classifiedBinary w f = Inr b \<and> r \<in> set rules
           \<and> ruleApplies r (filepath_Ext f) b \<and> filePath a = getCanonicalPath w f"
    using set_take_subset [of k files] by (auto dest: runRulesOnFile_checks)
  then show ?thesis by blast
qed

text \<open>The sample run.\<close>

lemma sample_classified: "classifiedBinary sampleWorld ''a.txt'' = Inr False"
  by (simp add: classifiedBinary_def readFirstNChars_def getCanonicalPath_def sampleWorld_def
        sampleText_def hasControlCharacters_def byte_def isControlCharacter_def)

lemma sample_ext: "filepath_Ext ''a.txt'' = ''.txt''"
  by (simp add: filepath_Ext_def)

lemma sample_lines: "convertStringToLines sampleText False = [sampleText]"
  by (simp add: sampleText_def convertStringToLines_def strings_HasPrefix_def
        strings_Split.simps Let_def)

lemma sample_prefix: "readFirstNChars sampleWorld ''/w/a.txt'' 50 = Inr sampleText"
  by (simp add: readFirstNChars_def sampleWorld_def sampleText_def)

lemma sample_text: "\<not> hasControlCharacters sampleText"
  by (simp add: sampleText_def hasControlCharacters_def byte_def isControlCharacter_def)

lemma sample_run:
  "runRulesOnFile sampleWorld sampleRules ''a.txt'' =
     ([ReadPrefix ''/w/a.txt'', LoadFile ''/w/a.txt'',
       CheckCalled (sampleRule ''AnyText'' flagTextFile []) sampleArgs,
       CheckCalled (sampleRule ''TxtOnly'' flagTextFile [''.txt'']) sampleArgs], None)"
proof -
  have c: "getCanonicalPath sampleWorld ''a.txt'' = ''/w/a.txt''"
    by (simp add: getCanonicalPath_def sampleWorld_def)
  have l: "lazyLoad sampleWorld ''/w/a.txt'' \<lparr>fileLoaded = False, loadedString = [], loadedLines = []\<rparr>
             = Inr ([LoadFile ''/w/a.txt''],
                    \<lparr>fileLoaded = True, loadedString = sampleText, loadedLines = [sampleText]\<rparr>)"
    by (simp add: lazyLoad_def readFileString_def sampleWorld_def sample_lines)
  have l': "lazyLoad sampleWorld ''/w/a.txt''
              \<lparr>fileLoaded = True, loadedString = sampleText, loadedLines = [sampleText]\<rparr>
             = Inr ([], \<lparr>fileLoaded = True, loadedString = sampleText, loadedLines = [sampleText]\<rparr>)"
    by (simp add: lazyLoad_def)
  show ?thesis
    by (simp add: runRulesOnFile_def c sample_prefix sample_text sample_ext Let_def
          sampleRules_def sampleRule_def rulesLoop.simps l l' sampleArgs_def
          flagTextFile_def flagBinaryFile_def ruleCheckDoNothing_def)
qed

text \<open>
  C7. A rule's check is called on a file only if the rule's extension set is empty or contains
  the file's extension, and the file's classification (binary or text) is among the rule's
  file-type flags: every call recorded in the run of one file, and in the run of a list of
  files, is for a rule of the list and a file for which both filters match.
\<close>

theorem check_called_only_if_filters_match:
  "((r, a) \<in> set (checksOf (fst (runRulesOnFile w rules file)))
      \<longrightarrow> (\<exists>b. classifiedBinary w file = Inr b \<and> r \<in> set rules
             \<and> filePath a = getCanonicalPath w file
             \<and> (fileExtensions r = [] \<or> filepath_Ext file \<in> set (fileExtensions r))
             \<and> (if b then (fileTypeFlags r AND flagBinaryFile) \<noteq> 0
                 else (fileTypeFlags r AND flagTextFile) \<noteq> 0)))
   \<and> ((r, a) \<in> set (checksOf (fst (runRulesOnFiles w rules files)))
      \<longrightarrow> (\<exists>f\<in>set files. \<exists>b. classifiedBinary w f = Inr b \<and> r \<in> set rules
             \<and> filePath a = getCanonicalPath w f
             \<and> (fileExtensions r = [] \<or> filepath_Ext f \<in> set (fileExtensions r))
             \<and> (if b then (fileTypeFlags r AND flagBinaryFile) \<noteq> 0
                 else (fileTypeFlags r AND flagTextFile) \<noteq> 0)))"
  using runRulesOnFile_checks [of r a w rules "file"] runRulesOnFiles_checks [of r a w rules files]
  unfolding ruleApplies_def by blast

theorem check_called_only_if_filters_match_witness:
  "(sampleRule ''AnyText'' flagTextFile [], sampleArgs)
     \<in> set (checksOf (fst (runRulesOnFile sampleWorld sampleRules ''a.txt'')))
   \<and> (sampleRule ''AnyText'' flagTextFile [], sampleArgs)
     \<in> set (checksOf (fst (runRulesOnFiles sampleWorld sampleRules [''a.txt''])))
   \<and> classifiedBinary sampleWorld ''a.txt'' = Inr False
   \<and> fileExtensions (sampleRule ''AnyText'' flagTextFile []) = []
   \<and> (fileTypeFlags (sampleRule ''AnyText'' flagTextFile []) AND flagTextFile) \<noteq> 0
   \<and> (sampleRule ''CsOnly'' flagTextFile [''.cs''], sampleArgs)
     \<notin> set (checksOf (fst (runRulesOnFiles sampleWorld sampleRules [''a.txt''])))"
proof -
  have one: "(sampleRule ''AnyText'' flagTextFile [], sampleArgs)
               \<in> set (checksOf (fst (runRulesOnFile sampleWorld sampleRules ''a.txt'')))"
    by (simp add: sample_run)
  have all: "(sampleRule ''AnyText'' flagTextFile [], sampleArgs)
               \<in> set (checksOf (fst (runRulesOnFiles sampleWorld sampleRules [''a.txt''])))"
    by (simp add: sample_run)
  have ext: "filepath_Ext ''a.txt'' \<notin> set (fileExtensions (sampleRule ''CsOnly'' flagTextFile [''.cs'']))"
    and ne: "fileExtensions (sampleRule ''CsOnly'' flagTextFile [''.cs'']) \<noteq> []"
    by (simp_all add: sample_ext sampleRule_def)
  from check_called_only_if_filters_match
         [of "sampleRule ''AnyText'' flagTextFile []" sampleArgs sampleWorld sampleRules
             "''a.txt''" "[''a.txt'']"] one all
  have "fileExtensions (sampleRule ''AnyText'' flagTextFile []) = []
          \<or> filepath_Ext ''a.txt'' \<in> set (fileExtensions (sampleRule ''AnyText'' flagTextFile []))"
    and "(fileTypeFlags (sampleRule ''AnyText'' flagTextFile []) AND flagTextFile) \<noteq> 0"
    by (auto simp: sample_classified)
  moreover
  from check_called_only_if_filters_match
         [of "sampleRule ''CsOnly'' flagTextFile [''.cs'']" sampleArgs sampleWorld sampleRules
             "''a.txt''" "[''a.txt'']"] ext ne
  have "(sampleRule ''CsOnly'' flagTextFile [''.cs''], sampleArgs)
          \<notin> set (checksOf (fst (runRulesOnFiles sampleWorld sampleRules [''a.txt''])))"
    by auto
  ultimately show ?thesis
    using one all by (simp add: sample_classified sampleRule_def)
qed

lemma count_list_concat_le:
  assumes "\<And>x. x \<in> set xs \<Longrightarrow> g x = [] \<or> g x = [h x]"
  shows "count_list (concat (map g xs)) p \<le> count_list (map h xs) p"
  using assms
proof (induction xs)
  case Nil
  show ?case by simp
next
  case (Cons a xs)
  from Cons.prems [of a] have "g a = [] \<or> g a = [h a]" by simp
  moreover from Cons have "count_list (concat (map g xs)) p \<le> count_list (map h xs) p" by simp
  ultimately show ?case by auto
qed

lemma count_list_take_le: "count_list (take k xs) p \<le> count_list xs p"
proof (induction xs arbitrary: k)
  case Nil
  show ?case by simp
next
  case (Cons x xs)
  then show ?case by (cases k) (auto intro: le_SucI)
qed

text \<open>
  C8. While one file is evaluated its content is loaded at most once, whatever the number of
  rules that apply, and not at all when no rule passes the filters; over a whole run a path is
  loaded at most as often as it occurs in the candidate list.
\<close>

theorem file_loaded_at_most_once:
  "length (loadsOf (fst (runRulesOnFile w rules file))) \<le> 1
   \<and> set (loadsOf (fst (runRulesOnFile w rules file))) \<subseteq> {getCanonicalPath w file}
   \<and> ((\<forall>r\<in>set rules. \<forall>b. classifiedBinary w file = Inr b \<longrightarrow> \<not> ruleApplies r (filepath_Ext file) b)
        \<longrightarrow> loadsOf (fst (runRulesOnFile w rules file)) = [])
   \<and> count_list (loadsOf (fst (runRulesOnFiles w rules files))) p
        \<le> count_list (map (getCanonicalPath w) files) p"
proof -
  from runRulesOnFiles_events [of files w rules] obtain k
    where ev: "fst (runRulesOnFiles w rules files)
             = concat (map (\<lambda>f. fst (runRulesOnFile w rules f)) (take k files))"
    by blast
  have "count_list (concat (map (\<lambda>f. loadsOf (fst (runRulesOnFile w rules f))) (take k files))) p
          \<le> count_list (map (getCanonicalPath w) (take k files)) p"
    by (rule count_list_concat_le) (rule runRulesOnFile_loads)
  also have "\<dots> \<le> count_list (map (getCanonicalPath w) files) p"
    by (simp add: take_map [symmetric] count_list_take_le)
  finally have "count_list (loadsOf (fst (runRulesOnFiles w rules files))) p
        \<le> count_list (map (getCanonicalPath w) files) p"
    by (simp add: ev loadsOf_concat comp_def)
  with runRulesOnFile_loads [of w rules "file"] runRulesOnFile_no_loads [of rules w "file"]
  show ?thesis by auto
qed

theorem file_loaded_at_most_once_witness:
  "classifiedBinary sampleWorld ''a.txt'' = Inr False
   \<and> \<not> ruleApplies (sampleRule ''CsOnly'' flagTextFile [''.cs'']) (filepath_Ext ''a.txt'') False
   \<and> \<not> ruleApplies (sampleRule ''BinaryOnly'' flagBinaryFile []) (filepath_Ext ''a.txt'') False
   \<and> loadsOf (fst (runRulesOnFile sampleWorld
        [sampleRule ''CsOnly'' flagTextFile [''.cs''], sampleRule ''BinaryOnly'' flagBinaryFile []]
        ''a.txt'')) = []
   \<and> loadsOf (fst (runRulesOnFile sampleWorld sampleRules ''a.txt'')) = [''/w/a.txt'']
   \<and> length (checksOf (fst (runRulesOnFile sampleWorld sampleRules ''a.txt''))) = 2"
proof -
  have h: "\<forall>r\<in>set [sampleRule ''CsOnly'' flagTextFile [''.cs''], sampleRule ''BinaryOnly'' flagBinaryFile []].
      \<forall>b. classifiedBinary sampleWorld ''a.txt'' = Inr b \<longrightarrow> \<not> ruleApplies r (filepath_Ext ''a.txt'') b"
    by (simp add: sample_classified sample_ext ruleApplies_def sampleRule_def
          flagTextFile_def flagBinaryFile_def)
  from file_loaded_at_most_once
         [of sampleWorld
             "[sampleRule ''CsOnly'' flagTextFile [''.cs''], sampleRule ''BinaryOnly'' flagBinaryFile []]"
             "''a.txt''"] h
  have "loadsOf (fst (runRulesOnFile sampleWorld
        [sampleRule ''CsOnly'' flagTextFile [''.cs''], sampleRule ''BinaryOnly'' flagBinaryFile []]
        ''a.txt'')) = []"
    by blast
  moreover
  have "\<not> ruleApplies (sampleRule ''CsOnly'' flagTextFile [''.cs'']) (filepath_Ext ''a.txt'') False"
    and "\<not> ruleApplies (sampleRule ''BinaryOnly'' flagBinaryFile []) (filepath_Ext ''a.txt'') False"
    by (simp_all add: sample_ext ruleApplies_def sampleRule_def flagTextFile_def
          flagBinaryFile_def)
  ultimately show ?thesis
    by (simp add: sample_run sample_classified)
qed


end
